theory Spec2Isabelle
  imports Complex_Main
begin

section \<open>Numbers, points and errors\<close>

text \<open>
  The program \<^verbatim>\<open>tools/svg2walkable.py\<close> turns the \<^verbatim>\<open>d\<close> attribute of SVG
  \<^verbatim>\<open>path\<close> elements and the \<^verbatim>\<open>points\<close> attribute of \<^verbatim>\<open>polygon\<close> elements into
  lists of points. A Python float is modelled by the exact rational value of its decimal
  literal, and float arithmetic by exact arithmetic: rounding, overflow to infinity and
  NaN are outside the model. A point \<^verbatim>\<open>[x, y]\<close> is a pair. Points are never mutated in
  place by the program (lists of points only grow by \<^verbatim>\<open>append\<close>), so values stand for
  the Python objects.

  Strings are lists of characters with codes below 128: \<^verbatim>\<open>\d\<close> is an ASCII digit and
  \<^verbatim>\<open>\s\<close> one of the ASCII characters Python counts as whitespace.
\<close>

type_synonym point = "rat \<times> rat"

datatype error =
    UnexpectedEnd
  | UnsupportedCommand "string option"
  | FloatError string

text \<open>
  All three are Python's \<^verbatim>\<open>ValueError\<close>: \<open>UnexpectedEnd\<close> is
  \<^verbatim>\<open>ValueError("Unexpected end of path data")\<close>, \<open>UnsupportedCommand c\<close> is
  \<^verbatim>\<open>ValueError(f"Unsupported path command: {cmd}")\<close> and \<open>FloatError s\<close> is the error
  \<^verbatim>\<open>float(s)\<close> raises on a string that is not a number.
\<close>

definition is_digit :: "char \<Rightarrow> bool" where
  "is_digit c = (c \<in> set ''0123456789'')"

definition is_space :: "char \<Rightarrow> bool" where
  "is_space c = ((of_char c :: nat) \<in> set [9, 10, 11, 12, 13, 28, 29, 30, 31, 32])"

definition is_cmd_char :: "char \<Rightarrow> bool" where
  "is_cmd_char c = (c \<in> set ''MmLlHhVvZz'')"

section \<open>The number pattern\<close>

text \<open>
  \<^verbatim>\<open>num = r"[+-]?(?:\d+(?:\.\d*)?|\.\d+)(?:[eE][+-]?\d+)?"\<close>.
  Each matcher returns the text it matched and the rest of the string, as the
  backtracking matcher of \<^verbatim>\<open>re\<close> does at a fixed start position: every quantifier is
  greedy, and since nothing after a shorter match could succeed where the longest one
  fails, the first attempt decides.
\<close>

definition digits1 :: "string \<Rightarrow> (string \<times> string) option" where
  "digits1 s =
     (if takeWhile is_digit s = [] then None
      else Some (takeWhile is_digit s, dropWhile is_digit s))"

definition mantissa :: "string \<Rightarrow> (string \<times> string) option" where
  "mantissa s =
     (case digits1 s of
        Some (ip, r) \<Rightarrow>
          (case r of
             [] \<Rightarrow> Some (ip, r)
           | d # r' \<Rightarrow>
               if d = CHR ''.''
               then Some (ip @ d # takeWhile is_digit r', dropWhile is_digit r')
               else Some (ip, r))
      | None \<Rightarrow>
          (case s of
             [] \<Rightarrow> None
           | d # r \<Rightarrow>
               if d = CHR ''.''
               then (case digits1 r of Some (fp, r') \<Rightarrow> Some (d # fp, r') | None \<Rightarrow> None)
               else None))"

definition exponent :: "string \<Rightarrow> string \<times> string" where
  "exponent s =
     (case s of
        [] \<Rightarrow> ([], s)
      | e # r \<Rightarrow>
          if e = CHR ''e'' \<or> e = CHR ''E'' then
            (case r of
               [] \<Rightarrow> ([], s)
             | g # r' \<Rightarrow>
                 if g = CHR ''+'' \<or> g = CHR ''-''
                 then (case digits1 r' of Some (ds, r'') \<Rightarrow> (e # g # ds, r'') | None \<Rightarrow> ([], s))
                 else (case digits1 r of Some (ds, r'') \<Rightarrow> (e # ds, r'') | None \<Rightarrow> ([], s)))
          else ([], s))"

definition match_num :: "string \<Rightarrow> (string \<times> string) option" where
  "match_num s =
     (case s of
        [] \<Rightarrow> None
      | g # r \<Rightarrow>
          if g = CHR ''+'' \<or> g = CHR ''-'' then
            (case mantissa r of
               Some (m, r1) \<Rightarrow> (case exponent r1 of (e, r2) \<Rightarrow> Some (g # m @ e, r2))
             | None \<Rightarrow> None)
          else
            (case mantissa s of
               Some (m, r1) \<Rightarrow> (case exponent r1 of (e, r2) \<Rightarrow> Some (m @ e, r2))
             | None \<Rightarrow> None))"

lemma digits1_split: "digits1 s = Some (t, r) \<Longrightarrow> s = t @ r \<and> t \<noteq> []"
  by (auto simp: digits1_def split: if_splits)

lemma mantissa_split: "mantissa s = Some (t, r) \<Longrightarrow> s = t @ r \<and> t \<noteq> []"
  unfolding mantissa_def
  by (auto split: option.splits list.splits if_splits dest!: digits1_split
      simp: takeWhile_dropWhile_id)

lemma exponent_split: "exponent s = (t, r) \<Longrightarrow> s = t @ r"
  unfolding exponent_def
  by (auto split: option.splits list.splits if_splits dest!: digits1_split)

lemma match_num_split: "match_num s = Some (t, r) \<Longrightarrow> s = t @ r \<and> t \<noteq> []"
  unfolding match_num_def
  by (auto split: option.splits list.splits if_splits prod.splits
      dest!: mantissa_split exponent_split)

lemma match_num_shorter: "match_num s = Some (t, r) \<Longrightarrow> length r < length s"
  by (drule match_num_split) (cases t, auto)

section \<open>The tokenizer\<close>

text \<open>
  \<^verbatim>\<open>CMD = re.compile(rf"[MmLlHhVvZz]|{num}")\<close> and \<^verbatim>\<open>tokens = CMD.findall(dstr)\<close>:
  at each position the command letters are tried first, then a number; where neither
  matches the scan moves one character on, so every other character is dropped
  silently. After a match the scan resumes behind it.
\<close>

function CMD_findall :: "string \<Rightarrow> string list" where
  "CMD_findall [] = []"
| "CMD_findall (c # s) =
     (if is_cmd_char c then [c] # CMD_findall s
      else (case match_num (c # s) of
              Some (tok, rest) \<Rightarrow> tok # CMD_findall rest
            | None \<Rightarrow> CMD_findall s))"
  by pat_completeness auto
termination
  by (relation "measure length") (auto dest: match_num_shorter)

text \<open>\<^verbatim>\<open>re.fullmatch(r"[MmLlHhVvZz]", t)\<close> on a token.\<close>

definition is_cmd :: "string \<Rightarrow> bool" where
  "is_cmd t = (case t of [c] \<Rightarrow> is_cmd_char c | _ \<Rightarrow> False)"

section \<open>Conversion to float\<close>

text \<open>
  \<^verbatim>\<open>float(s)\<close> on a string of the number pattern gives its decimal value; on any other
  string of the model it raises. Python's \<^verbatim>\<open>float\<close> also reads \<^verbatim>\<open>inf\<close>, \<^verbatim>\<open>nan\<close> and
  digits grouped by underscores, which have no rational value: the tokenizer and the
  \<^verbatim>\<open>points\<close> pattern never produce such strings, and an argument of a transform
  written so is outside the model.
\<close>

definition digit_val :: "char \<Rightarrow> nat" where
  "digit_val c = of_char c - 48"

definition digits_val :: "string \<Rightarrow> nat" where
  "digits_val ds = foldl (\<lambda>a c. 10 * a + digit_val c) 0 ds"

definition pow10 :: "int \<Rightarrow> rat" where
  "pow10 e = (if 0 \<le> e then 10 ^ nat e else 1 / 10 ^ nat (- e))"

definition sign_split :: "string \<Rightarrow> bool \<times> string" where
  "sign_split s =
     (case s of
        [] \<Rightarrow> (False, s)
      | g # r \<Rightarrow>
          if g = CHR ''-'' then (True, r) else if g = CHR ''+'' then (False, r) else (False, s))"

definition num_value :: "string \<Rightarrow> rat" where
  "num_value t =
     (case sign_split t of
        (neg, r0) \<Rightarrow>
          let ip = takeWhile is_digit r0;
              r1 = dropWhile is_digit r0;
              fp = (case r1 of [] \<Rightarrow> [] | d # r \<Rightarrow> if d = CHR ''.'' then takeWhile is_digit r else []);
              r2 = (case r1 of [] \<Rightarrow> [] | d # r \<Rightarrow> if d = CHR ''.'' then dropWhile is_digit r else r1);
              ex = (case r2 of
                      [] \<Rightarrow> 0
                    | e # r \<Rightarrow>
                        (case sign_split r of
                           (eneg, ds) \<Rightarrow>
                             if eneg then - int (digits_val ds) else int (digits_val ds)));
              m = of_nat (digits_val (ip @ fp)) * pow10 (ex - int (length fp))
          in if neg then - m else m)"

definition float_str :: "string \<Rightarrow> error + rat" where
  "float_str t =
     (case match_num t of
        Some (m, r) \<Rightarrow> if r = [] then Inr (num_value t) else Inl (FloatError t)
      | None \<Rightarrow> Inl (FloatError t))"

section \<open>The path interpreter\<close>

text \<open>
  The local variables of \<^verbatim>\<open>path_to_points\<close>. The index \<^verbatim>\<open>i\<close> into \<^verbatim>\<open>tokens\<close> is
  modelled by the list of tokens not yet read, \<^verbatim>\<open>tokens[i:]\<close>, passed beside the state.
\<close>

record state =
  cur :: point
  start :: "point option"
  polys :: "point list list"
  cmd :: "string option"

definition init_state :: state where
  "init_state = \<lparr>cur = (0, 0), start = None, polys = [], cmd = None\<rparr>"

text \<open>\<^verbatim>\<open>readnum\<close>: the next token as a float, or the error raised.\<close>

fun readnum :: "string list \<Rightarrow> error + (rat \<times> string list)" where
  "readnum [] = Inl UnexpectedEnd"
| "readnum (t # ts) = (case float_str t of Inl e \<Rightarrow> Inl e | Inr v \<Rightarrow> Inr (v, ts))"

lemma readnum_shorter: "readnum ts = Inr (v, ts') \<Longrightarrow> length ts' < length ts"
  by (cases ts) (auto split: sum.splits)

text \<open>
  The inner loop of the moveto branch (lines 81 to 90): further pairs are appended to
  \<^verbatim>\<open>current_poly\<close>, relative to its last point for \<^verbatim>\<open>m\<close>.
\<close>

function m_pairs ::
  "string \<Rightarrow> point list \<Rightarrow> point \<Rightarrow> string list \<Rightarrow> error + (point list \<times> point \<times> string list)"
where
  "m_pairs c poly cu ts =
     (if ts = [] \<or> is_cmd (hd ts) then Inr (poly, cu, ts)
      else (case readnum ts of
              Inl e \<Rightarrow> Inl e
            | Inr (x, ts1) \<Rightarrow>
                (case readnum ts1 of
                   Inl e \<Rightarrow> Inl e
                 | Inr (y, ts2) \<Rightarrow>
                     let nxt = (if c = ''m'' then (fst (last poly) + x, snd (last poly) + y)
                                else (x, y))
                     in m_pairs c (poly @ [nxt]) nxt ts2)))"
  by pat_completeness auto
termination
  by (relation "measure (\<lambda>(c, poly, cu, ts). length ts)")
     (auto dest!: readnum_shorter)

text \<open>
  The inner loops of the lineto branches (lines 98 to 103, 109 to 113, 119 to 123).
  \<open>poly\<close> is \<^verbatim>\<open>polys[-1]\<close>, the list the loop appends to.
\<close>

function l_pairs ::
  "string \<Rightarrow> point list \<Rightarrow> point \<Rightarrow> string list \<Rightarrow> error + (point list \<times> point \<times> string list)"
where
  "l_pairs c poly cu ts =
     (if ts = [] \<or> is_cmd (hd ts) then Inr (poly, cu, ts)
      else (case readnum ts of
              Inl e \<Rightarrow> Inl e
            | Inr (x, ts1) \<Rightarrow>
                (case readnum ts1 of
                   Inl e \<Rightarrow> Inl e
                 | Inr (y, ts2) \<Rightarrow>
                     let nxt = (if c = ''l'' then (fst cu + x, snd cu + y) else (x, y))
                     in l_pairs c (poly @ [nxt]) nxt ts2)))"
  by pat_completeness auto
termination
  by (relation "measure (\<lambda>(c, poly, cu, ts). length ts)")
     (auto dest!: readnum_shorter)

function h_nums ::
  "string \<Rightarrow> point list \<Rightarrow> point \<Rightarrow> string list \<Rightarrow> error + (point list \<times> point \<times> string list)"
where
  "h_nums c poly cu ts =
     (if ts = [] \<or> is_cmd (hd ts) then Inr (poly, cu, ts)
      else (case readnum ts of
              Inl e \<Rightarrow> Inl e
            | Inr (x, ts1) \<Rightarrow>
                let nxt = (if c = ''h'' then (fst cu + x, snd cu) else (x, snd cu))
                in h_nums c (poly @ [nxt]) nxt ts1))"
  by pat_completeness auto
termination
  by (relation "measure (\<lambda>(c, poly, cu, ts). length ts)")
     (auto dest!: readnum_shorter)

function v_nums ::
  "string \<Rightarrow> point list \<Rightarrow> point \<Rightarrow> string list \<Rightarrow> error + (point list \<times> point \<times> string list)"
where
  "v_nums c poly cu ts =
     (if ts = [] \<or> is_cmd (hd ts) then Inr (poly, cu, ts)
      else (case readnum ts of
              Inl e \<Rightarrow> Inl e
            | Inr (y, ts1) \<Rightarrow>
                let nxt = (if c = ''v'' then (fst cu, snd cu + y) else (fst cu, y))
                in v_nums c (poly @ [nxt]) nxt ts1))"
  by pat_completeness auto
termination
  by (relation "measure (\<lambda>(c, poly, cu, ts). length ts)")
     (auto dest!: readnum_shorter)

declare m_pairs.simps [simp del] l_pairs.simps [simp del]
  h_nums.simps [simp del] v_nums.simps [simp del]

text \<open>
  The closepath branch (lines 128 to 134). \<^verbatim>\<open>polys and polys[-1]\<close> guards every read
  of the last subpath.
\<close>

definition closepath :: "state \<Rightarrow> state" where
  "closepath st =
     (if polys st \<noteq> [] \<and> last (polys st) \<noteq> [] then
        let p = last (polys st);
            p' = (if hd p \<noteq> last p then p @ [hd p] else p)
        in st\<lparr>polys := butlast (polys st) @ [p'], cur := last p', start := None\<rparr>
      else st\<lparr>start := None\<rparr>)"

text \<open>
  The moveto branch (lines 72 to 91) for the command \<open>c\<close>, the state and the tokens
  from \<^verbatim>\<open>i\<close> on: the error raised, or the state and the tokens left at the
  \<^verbatim>\<open>continue\<close>.
\<close>

definition moveto :: "string \<Rightarrow> state \<Rightarrow> string list \<Rightarrow> error + (state \<times> string list)" where
  "moveto c st ts =
     (case readnum ts of
        Inl e \<Rightarrow> Inl e
      | Inr (x, ts1) \<Rightarrow>
          (case readnum ts1 of
             Inl e \<Rightarrow> Inl e
           | Inr (y, ts2) \<Rightarrow>
               let cu = (if c = ''m'' then (fst (cur st) + x, snd (cur st) + y) else (x, y))
               in (case m_pairs c [cu] cu ts2 of
                     Inl e \<Rightarrow> Inl e
                   | Inr (poly, cu', ts3) \<Rightarrow>
                       Inr (st\<lparr>cur := cu', start := Some cu,
                               polys := polys st @ [poly]\<rparr>, ts3))))"

text \<open>
  \<^verbatim>\<open>polys\<close> after \<^verbatim>\<open>if not polys: polys.append([cur[:]])\<close> (lines 96 and 97, 107 and
  108, 117 and 118): its last element exists.
\<close>

definition seeded :: "state \<Rightarrow> point list list" where
  "seeded st = (if polys st = [] then [[cur st]] else polys st)"

text \<open>The lineto branches (lines 94 to 124).\<close>

definition lineto :: "string \<Rightarrow> state \<Rightarrow> string list \<Rightarrow> error + (state \<times> string list)" where
  "lineto c st ts =
     (case l_pairs c (last (seeded st)) (cur st) ts of
        Inl e \<Rightarrow> Inl e
      | Inr (poly, cu', ts1) \<Rightarrow>
          Inr (st\<lparr>cur := cu', polys := butlast (seeded st) @ [poly]\<rparr>, ts1))"

definition hlineto :: "string \<Rightarrow> state \<Rightarrow> string list \<Rightarrow> error + (state \<times> string list)" where
  "hlineto c st ts =
     (case h_nums c (last (seeded st)) (cur st) ts of
        Inl e \<Rightarrow> Inl e
      | Inr (poly, cu', ts1) \<Rightarrow>
          Inr (st\<lparr>cur := cu', polys := butlast (seeded st) @ [poly]\<rparr>, ts1))"

definition vlineto :: "string \<Rightarrow> state \<Rightarrow> string list \<Rightarrow> error + (state \<times> string list)" where
  "vlineto c st ts =
     (case v_nums c (last (seeded st)) (cur st) ts of
        Inl e \<Rightarrow> Inl e
      | Inr (poly, cu', ts1) \<Rightarrow>
          Inr (st\<lparr>cur := cu', polys := butlast (seeded st) @ [poly]\<rparr>, ts1))"

text \<open>
  One turn of the main loop (lines 65 to 139) with \<open>t\<close> the token at \<^verbatim>\<open>i\<close> and
  \<open>rest\<close> the tokens behind it: a command letter becomes \<^verbatim>\<open>cmd\<close> and is consumed,
  a number leaves \<^verbatim>\<open>cmd\<close> and \<^verbatim>\<open>i\<close> as they are; then the branch of \<^verbatim>\<open>cmd\<close> runs.
\<close>

definition step :: "state \<Rightarrow> string \<Rightarrow> string list \<Rightarrow> error + (state \<times> string list)" where
  "step st t rest =
     (let c = (if is_cmd t then Some t else cmd st);
          ts = (if is_cmd t then rest else t # rest);
          st1 = st\<lparr>cmd := c\<rparr>
      in
      if c = Some ''M'' \<or> c = Some ''m'' then moveto (the c) st1 ts
      else if c = Some ''L'' \<or> c = Some ''l'' then lineto (the c) st1 ts
      else if c = Some ''H'' \<or> c = Some ''h'' then hlineto (the c) st1 ts
      else if c = Some ''V'' \<or> c = Some ''v'' then vlineto (the c) st1 ts
      else if c = Some ''Z'' \<or> c = Some ''z'' then Inr (closepath st1, ts)
      else Inl (UnsupportedCommand c))"

text \<open>
  The main loop \<^verbatim>\<open>while i < len(tokens)\<close>. A closepath turn does not move \<^verbatim>\<open>i\<close>
  when the token at \<^verbatim>\<open>i\<close> is a number, so the loop need not end: not returning is
  the value \<open>None\<close>.
\<close>

partial_function (option) run :: "state \<Rightarrow> string list \<Rightarrow> (error + state) option" where
  "run st ts =
     (case ts of
        [] \<Rightarrow> Some (Inr st)
      | t # rest \<Rightarrow>
          (case step st t rest of
             Inl e \<Rightarrow> Some (Inl e)
           | Inr (st', ts') \<Rightarrow> run st' ts'))"

text \<open>The closing pass behind the loop (lines 142 to 144), for one subpath.\<close>

definition close_poly :: "point list \<Rightarrow> point list" where
  "close_poly poly = (if poly \<noteq> [] \<and> hd poly \<noteq> last poly then poly @ [hd poly] else poly)"

definition path_to_points :: "string \<Rightarrow> (error + point list list) option" where
  "path_to_points dstr =
     (case run init_state (CMD_findall dstr) of
        None \<Rightarrow> None
      | Some (Inl e) \<Rightarrow> Some (Inl e)
      | Some (Inr st) \<Rightarrow> Some (Inr (map close_poly (polys st))))"

section \<open>The polygon points parser\<close>

text \<open>
  \<^verbatim>\<open>re.findall(rf"({num})[,\s]+({num})", s.strip())\<close>: at a position, a number, one or
  more commas or whitespace characters, and a number; the two groups are returned.
  Where the pattern does not match, the scan moves one character on.
\<close>

definition is_sep :: "char \<Rightarrow> bool" where
  "is_sep c = (c = CHR '','' \<or> is_space c)"

definition strip :: "string \<Rightarrow> string" where
  "strip s = rev (dropWhile is_space (rev (dropWhile is_space s)))"

definition match_pair :: "string \<Rightarrow> ((string \<times> string) \<times> string) option" where
  "match_pair s =
     (case match_num s of
        None \<Rightarrow> None
      | Some (a, r) \<Rightarrow>
          if takeWhile is_sep r = [] then None
          else (case match_num (dropWhile is_sep r) of
                  None \<Rightarrow> None
                | Some (b, r') \<Rightarrow> Some ((a, b), r')))"

lemma match_pair_shorter: "match_pair s = Some (p, r) \<Longrightarrow> length r < length s"
proof -
  assume a: "match_pair s = Some (p, r)"
  then obtain x r1 y where m1: "match_num s = Some (x, r1)"
    and m2: "match_num (dropWhile is_sep r1) = Some (y, r)"
    by (auto simp: match_pair_def split: option.splits if_splits)
  have "length r < length (dropWhile is_sep r1)"
    using m2 by (rule match_num_shorter)
  also have "\<dots> \<le> length r1"
    by (rule length_dropWhile_le)
  also have "\<dots> < length s"
    using m1 by (rule match_num_shorter)
  finally show ?thesis .
qed

function points_findall :: "string \<Rightarrow> (string \<times> string) list" where
  "points_findall [] = []"
| "points_findall (c # s) =
     (case match_pair (c # s) of
        Some (p, rest) \<Rightarrow> p # points_findall rest
      | None \<Rightarrow> points_findall s)"
  by pat_completeness auto
termination
  by (relation "measure length") (auto dest: match_pair_shorter)

text \<open>The loop of lines 150 and 151: both groups of every match go through \<^verbatim>\<open>float\<close>.\<close>

fun pairs_to_points :: "(string \<times> string) list \<Rightarrow> error + point list" where
  "pairs_to_points [] = Inr []"
| "pairs_to_points ((a, b) # ps) =
     (case float_str a of
        Inl e \<Rightarrow> Inl e
      | Inr x \<Rightarrow>
          (case float_str b of
             Inl e \<Rightarrow> Inl e
           | Inr y \<Rightarrow>
               (case pairs_to_points ps of
                  Inl e \<Rightarrow> Inl e
                | Inr pts \<Rightarrow> Inr ((x, y) # pts))))"

definition polygon_points_attr_to_list :: "string \<Rightarrow> error + point list" where
  "polygon_points_attr_to_list s =
     (case pairs_to_points (points_findall (strip s)) of
        Inl e \<Rightarrow> Inl e
      | Inr pts \<Rightarrow> Inr (if pts \<noteq> [] \<and> hd pts \<noteq> last pts then pts @ [hd pts] else pts))"

section \<open>The transform of an element\<close>

text \<open>
  \<^verbatim>\<open>re.finditer(r"(translate|scale)\s*\(([^)]+)\)", t)\<close>: the matches, left to right,
  each as the pair of its two groups.
\<close>

definition starts_with :: "string \<Rightarrow> string \<Rightarrow> bool" where
  "starts_with p s = (take (length p) s = p)"

definition match_item :: "string \<Rightarrow> ((string \<times> string) \<times> string) option" where
  "match_item s =
     (let kind = (if starts_with ''translate'' s then Some ''translate''
                  else if starts_with ''scale'' s then Some ''scale'' else None)
      in case kind of
           None \<Rightarrow> None
         | Some k \<Rightarrow>
             (case dropWhile is_space (drop (length k) s) of
                [] \<Rightarrow> None
              | p # r1 \<Rightarrow>
                  if p = CHR ''('' \<and> takeWhile (\<lambda>c. c \<noteq> CHR '')'') r1 \<noteq> [] then
                    (case dropWhile (\<lambda>c. c \<noteq> CHR '')'') r1 of
                       [] \<Rightarrow> None
                     | q # r2 \<Rightarrow> Some ((k, takeWhile (\<lambda>c. c \<noteq> CHR '')'') r1), r2))
                  else None))"

lemma match_item_shorter: "match_item s = Some (p, r) \<Longrightarrow> length r < length s"
proof -
  assume a: "match_item s = Some (p, r)"
  then have "\<exists>n c r1 q. dropWhile is_space (drop n s) = c # r1
      \<and> dropWhile (\<lambda>c. c \<noteq> CHR '')'') r1 = q # r"
    unfolding match_item_def Let_def
    by (auto split: option.splits list.splits if_splits)
  then obtain n c r1 q where
    d1: "dropWhile is_space (drop n s) = c # r1"
    and d2: "dropWhile (\<lambda>c. c \<noteq> CHR '')'') r1 = q # r"
    by blast
  have "length r < length (dropWhile (\<lambda>c. c \<noteq> CHR '')'') r1)"
    by (simp add: d2)
  also have "\<dots> \<le> length r1"
    by (rule length_dropWhile_le)
  also have "\<dots> < length (dropWhile is_space (drop n s))"
    by (simp add: d1)
  also have "\<dots> \<le> length (drop n s)"
    by (rule length_dropWhile_le)
  also have "\<dots> \<le> length s"
    by simp
  finally show ?thesis .
qed

function transform_items :: "string \<Rightarrow> (string \<times> string) list" where
  "transform_items [] = []"
| "transform_items (c # s) =
     (case match_item (c # s) of
        Some (p, rest) \<Rightarrow> p # transform_items rest
      | None \<Rightarrow> transform_items s)"
  by pat_completeness auto
termination
  by (relation "measure length") (auto dest: match_item_shorter)

text \<open>
  \<^verbatim>\<open>re.split(r"[,\s]+", a)\<close>: the pieces between the runs of separators, the empty
  piece before a leading and behind a trailing run included.
\<close>

function re_split_seps :: "string \<Rightarrow> string list" where
  "re_split_seps s =
     (if dropWhile (\<lambda>c. \<not> is_sep c) s = [] then [s]
      else takeWhile (\<lambda>c. \<not> is_sep c) s
           # re_split_seps (dropWhile is_sep (dropWhile (\<lambda>c. \<not> is_sep c) s)))"
  by pat_completeness auto
termination
proof (relation "measure length")
  show "wf (measure length)" by simp
next
  fix s :: string
  assume ne: "dropWhile (\<lambda>c. \<not> is_sep c) s \<noteq> []"
  then obtain c r where cr: "dropWhile (\<lambda>c. \<not> is_sep c) s = c # r"
    by (cases "dropWhile (\<lambda>c. \<not> is_sep c) s") auto
  have "is_sep c"
    using cr hd_dropWhile [of "\<lambda>c. \<not> is_sep c" s] by auto
  then have "length (dropWhile is_sep (c # r)) \<le> length r"
    by (simp add: length_dropWhile_le)
  moreover have "length (c # r) \<le> length s"
    using length_dropWhile_le [of "\<lambda>c. \<not> is_sep c" s] by (simp add: cr)
  ultimately show "(dropWhile is_sep (dropWhile (\<lambda>c. \<not> is_sep c) s), s) \<in> measure length"
    by (simp add: cr)
qed

declare re_split_seps.simps [simp del]

text \<open>\<^verbatim>\<open>[float(x) for x in ... if x]\<close>: the first failing conversion raises.\<close>

fun floats :: "string list \<Rightarrow> error + rat list" where
  "floats [] = Inr []"
| "floats (x # xs) =
     (case float_str x of
        Inl e \<Rightarrow> Inl e
      | Inr v \<Rightarrow> (case floats xs of Inl e \<Rightarrow> Inl e | Inr vs \<Rightarrow> Inr (v # vs)))"

definition item_args :: "string \<Rightarrow> error + rat list" where
  "item_args a = floats (filter (\<lambda>x. x \<noteq> []) (re_split_seps (strip a)))"

text \<open>The four accumulators \<^verbatim>\<open>sx, sy, tx, ty\<close> and one turn of the loop of line 229.\<close>

record transform =
  sx :: rat
  sy :: rat
  tx :: rat
  ty :: rat

definition identity_transform :: transform where
  "identity_transform = \<lparr>sx = 1, sy = 1, tx = 0, ty = 0\<rparr>"

definition accumulate :: "transform \<Rightarrow> string \<Rightarrow> rat list \<Rightarrow> transform" where
  "accumulate T kind args =
     (if kind = ''translate'' then
        (if length args = 1 then T\<lparr>tx := tx T + args ! 0\<rparr>
         else if length args \<ge> 2 then T\<lparr>tx := tx T + args ! 0, ty := ty T + args ! 1\<rparr>
         else T)
      else if kind = ''scale'' then
        (if length args = 1 then T\<lparr>sx := sx T * args ! 0, sy := sy T * args ! 0\<rparr>
         else if length args \<ge> 2 then T\<lparr>sx := sx T * args ! 0, sy := sy T * args ! 1\<rparr>
         else T)
      else T)"

fun transform_loop :: "transform \<Rightarrow> (string \<times> string) list \<Rightarrow> error + transform" where
  "transform_loop T [] = Inr T"
| "transform_loop T ((kind, a) # items) =
     (case item_args a of
        Inl e \<Rightarrow> Inl e
      | Inr args \<Rightarrow> transform_loop (accumulate T kind args) items)"

text \<open>
  Lines 225 to 246 for the value of \<^verbatim>\<open>el.get("transform")\<close>; \<^verbatim>\<open>if t:\<close> holds for a
  string that is not empty.
\<close>

definition element_transform :: "string option \<Rightarrow> error + transform" where
  "element_transform t =
     (case t of
        None \<Rightarrow> Inr identity_transform
      | Some s \<Rightarrow>
          if s = [] then Inr identity_transform
          else transform_loop identity_transform (transform_items s))"

definition apply_simple_transform ::
  "point list \<Rightarrow> rat \<Rightarrow> rat \<Rightarrow> rat \<Rightarrow> rat \<Rightarrow> point list" where
  "apply_simple_transform points s_x s_y t_x t_y =
     map (\<lambda>(x, y). (s_x * x + t_x, s_y * y + t_y)) points"

section \<open>The document and the selection of elements\<close>

text \<open>
  An element of the tree \<^verbatim>\<open>ET.parse\<close> returns: its tag (with the namespace in braces),
  its attributes and its children in document order. \<^verbatim>\<open>el.get(k)\<close> is the value of
  attribute \<open>k\<close> or \<^verbatim>\<open>None\<close>.
\<close>

datatype element = Element (tag: string) (attrib: "(string \<times> string) list") (children: "element list")

definition get :: "element \<Rightarrow> string \<Rightarrow> string option" where
  "get el k = map_of (attrib el) k"

fun descendants :: "element \<Rightarrow> element list" where
  "descendants (Element t a cs) = concat (map (\<lambda>c. c # descendants c) cs)"

text \<open>\<^verbatim>\<open>root.findall(".//" + tg)\<close>: the descendants of the root with that tag, in document order.\<close>

definition findall :: "element \<Rightarrow> string \<Rightarrow> element list" where
  "findall doc tg = filter (\<lambda>el. tag el = tg) (descendants doc)"

definition svg_path :: string where
  "svg_path = ''{http://www.w3.org/2000/svg}path''"

definition svg_polygon :: string where
  "svg_polygon = ''{http://www.w3.org/2000/svg}polygon''"

definition ink_label :: string where
  "ink_label = ''{http://www.inkscape.org/namespaces/inkscape}label''"

text \<open>\<^verbatim>\<open>s.split()\<close>: the maximal runs of characters that are not whitespace.\<close>

function split_ws :: "string \<Rightarrow> string list" where
  "split_ws s =
     (if dropWhile is_space s = [] then []
      else takeWhile (\<lambda>c. \<not> is_space c) (dropWhile is_space s)
           # split_ws (dropWhile (\<lambda>c. \<not> is_space c) (dropWhile is_space s)))"
  by pat_completeness auto
termination
proof (relation "measure length")
  show "wf (measure length)" by simp
next
  fix s :: string
  assume ne: "dropWhile is_space s \<noteq> []"
  then obtain c r where cr: "dropWhile is_space s = c # r"
    by (cases "dropWhile is_space s") auto
  have "\<not> is_space c"
    using cr hd_dropWhile [of is_space s] by auto
  then have "length (dropWhile (\<lambda>c. \<not> is_space c) (c # r)) \<le> length r"
    by (simp add: length_dropWhile_le)
  moreover have "length (c # r) \<le> length s"
    using length_dropWhile_le [of is_space s] by (simp add: cr)
  ultimately show "(dropWhile (\<lambda>c. \<not> is_space c) (dropWhile is_space s), s) \<in> measure length"
    by (simp add: cr)
qed

declare split_ws.simps [simp del]

text \<open>The test of one element in \<^verbatim>\<open>select_elements\<close> (lines 165 to 170).\<close>

definition selected :: "string \<Rightarrow> string \<Rightarrow> element \<Rightarrow> bool" where
  "selected key val el =
     (if key = ''id'' \<and> get el ''id'' = Some val then True
      else if key = ''class''
              \<and> val \<in> set (split_ws (case get el ''class'' of None \<Rightarrow> [] | Some s \<Rightarrow> s))
      then True
      else if key = ''label'' \<and> get el ink_label = Some val then True
      else False)"

definition select_elements :: "element \<Rightarrow> string \<Rightarrow> string \<Rightarrow> element list" where
  "select_elements doc key val =
     filter (selected key val) (findall doc svg_path)
     @ filter (selected key val) (findall doc svg_polygon)"

text \<open>What the program prints, one constructor for each \<^verbatim>\<open>print\<close>.\<close>

datatype message =
    Usage
  | BadSelect
  | NothingMatched string string
  | SkippingPath error
  | Wrote string nat

text \<open>Python's truth value of a variable that holds \<^verbatim>\<open>None\<close> or a string.\<close>

definition truthy :: "string option \<Rightarrow> bool" where
  "truthy v = (case v of None \<Rightarrow> False | Some s \<Rightarrow> s \<noteq> [])"

text \<open>Lines 200 to 208: the elements to process and what was printed.\<close>

definition choose_elements ::
  "element \<Rightarrow> string option \<Rightarrow> string option \<Rightarrow> element list \<times> message list" where
  "choose_elements doc key val =
     (let elems = (if truthy key \<and> truthy val then select_elements doc (the key) (the val)
                   else []);
          printed = (if truthy key \<and> truthy val \<and> elems = []
                     then [NothingMatched (the key) (the val)] else [])
      in (if elems = [] then findall doc svg_path @ findall doc svg_polygon else elems,
          printed))"

section \<open>The loop over the elements\<close>

definition ends_with :: "string \<Rightarrow> string \<Rightarrow> bool" where
  "ends_with suffix s =
     (length suffix \<le> length s \<and> drop (length s - length suffix) s = suffix)"

text \<open>Lines 251 and 252: the duplicate last point is dropped.\<close>

definition drop_closing :: "point list \<Rightarrow> point list" where
  "drop_closing pts = (if pts \<noteq> [] \<and> hd pts = last pts then butlast pts else pts)"

text \<open>
  Lines 225 to 253 for an element whose subpaths are \<open>ps\<close>: the polygons appended to
  \<^verbatim>\<open>all_polys\<close>. A \<^verbatim>\<open>ValueError\<close> of \<^verbatim>\<open>float\<close> in the transform is not caught.
\<close>

definition transformed :: "element \<Rightarrow> point list list \<Rightarrow> error + point list list" where
  "transformed el ps =
     (case element_transform (get el ''transform'') of
        Inl e \<Rightarrow> Inl e
      | Inr T \<Rightarrow>
          Inr (map (\<lambda>poly. drop_closing (apply_simple_transform poly (sx T) (sy T) (tx T) (ty T))) ps))"

text \<open>
  One turn of the loop of line 211: the polygons appended and the messages printed,
  an uncaught error, or \<open>None\<close> when \<^verbatim>\<open>path_to_points\<close> does not return.
\<close>

definition element_step :: "element \<Rightarrow> (error + point list list \<times> message list) option" where
  "element_step el =
     (if ends_with ''path'' (tag el) \<and> truthy (get el ''d'') then
        (case path_to_points (the (get el ''d'')) of
           None \<Rightarrow> None
         | Some (Inl ex) \<Rightarrow> Some (Inr ([], [SkippingPath ex]))
         | Some (Inr ps) \<Rightarrow>
             (case transformed el ps of Inl e \<Rightarrow> Some (Inl e) | Inr out \<Rightarrow> Some (Inr (out, []))))
      else if ends_with ''polygon'' (tag el) \<and> truthy (get el ''points'') then
        (case polygon_points_attr_to_list (the (get el ''points'')) of
           Inl e \<Rightarrow> Some (Inl e)
         | Inr p \<Rightarrow>
             (case transformed el [p] of Inl e \<Rightarrow> Some (Inl e) | Inr out \<Rightarrow> Some (Inr (out, []))))
      else Some (Inr ([], [])))"

fun elements_loop ::
  "point list list \<Rightarrow> message list \<Rightarrow> element list
     \<Rightarrow> (error + point list list \<times> message list) option" where
  "elements_loop all_polys printed [] = Some (Inr (all_polys, printed))"
| "elements_loop all_polys printed (el # els) =
     (case element_step el of
        None \<Rightarrow> None
      | Some (Inl e) \<Rightarrow> Some (Inl e)
      | Some (Inr (out, msgs)) \<Rightarrow> elements_loop (all_polys @ out) (printed @ msgs) els)"

section \<open>The command line and the whole run\<close>

text \<open>\<^verbatim>\<open>s.split(c)\<close> and \<^verbatim>\<open>s.split(c, 1)\<close> for a separator of one character.\<close>

function split_on :: "char \<Rightarrow> string \<Rightarrow> string list" where
  "split_on c s =
     (if dropWhile (\<lambda>x. x \<noteq> c) s = [] then [s]
      else takeWhile (\<lambda>x. x \<noteq> c) s # split_on c (tl (dropWhile (\<lambda>x. x \<noteq> c) s)))"
  by pat_completeness auto
termination
proof (relation "measure (\<lambda>(c, s). length s)")
  show "wf (measure (\<lambda>(c, s). length s))" by simp
next
  fix c :: char and s :: string
  assume ne: "dropWhile (\<lambda>x. x \<noteq> c) s \<noteq> []"
  then have "length (tl (dropWhile (\<lambda>x. x \<noteq> c) s)) < length (dropWhile (\<lambda>x. x \<noteq> c) s)"
    by (cases "dropWhile (\<lambda>x. x \<noteq> c) s") auto
  also have "\<dots> \<le> length s"
    by (rule length_dropWhile_le)
  finally show "((c, tl (dropWhile (\<lambda>x. x \<noteq> c) s)), (c, s)) \<in> measure (\<lambda>(c, s). length s)"
    by simp
qed

declare split_on.simps [simp del]

definition split1 :: "char \<Rightarrow> string \<Rightarrow> string list" where
  "split1 c s =
     (if dropWhile (\<lambda>x. x \<noteq> c) s = [] then [s]
      else [takeWhile (\<lambda>x. x \<noteq> c) s, tl (dropWhile (\<lambda>x. x \<noteq> c) s)])"

text \<open>
  The body of the \<^verbatim>\<open>try\<close> of lines 191 and 192 on \<^verbatim>\<open>sys.argv[3]\<close>: \<open>None\<close> when
  it raises (the index 1 does not exist, or the unpacking does not find two values).
\<close>

definition parse_select :: "string \<Rightarrow> (string \<times> string) option" where
  "parse_select a =
     (case split_on CHR ''='' a of
        x # kv # xs \<Rightarrow>
          (case (if CHR ''='' \<in> set kv then split1 CHR ''='' kv else split1 CHR '':'' kv) of
             [k, v] \<Rightarrow> Some (k, v)
           | _ \<Rightarrow> None)
      | _ \<Rightarrow> None)"

text \<open>
  Lines 182 to 195: the exit code and message of \<^verbatim>\<open>sys.exit\<close>, or
  \<^verbatim>\<open>(inp, outp, key, val)\<close>.
\<close>

definition parse_args ::
  "string list \<Rightarrow> nat \<times> message + string \<times> string \<times> string option \<times> string option" where
  "parse_args argv =
     (if length argv < 3 then Inl (1, Usage)
      else if length argv \<ge> 4 \<and> starts_with ''--select'' (argv ! 3) then
        (case parse_select (argv ! 3) of
           None \<Rightarrow> Inl (2, BadSelect)
         | Some (k, v) \<Rightarrow> Inr (argv ! 1, argv ! 2, Some k, Some v))
      else Inr (argv ! 1, argv ! 2, None, None))"

text \<open>
  The run from line 200 on, for the root of the parsed document: \<open>Written\<close> holds the
  value stored under \<^verbatim>\<open>"polygons"\<close> and what was printed.
\<close>

datatype outcome =
    Exit nat message
  | Uncaught error
  | Written "point list list" "message list"

definition process :: "element \<Rightarrow> string \<Rightarrow> string option \<Rightarrow> string option \<Rightarrow> outcome option" where
  "process doc outp key val =
     (case choose_elements doc key val of
        (elems, printed) \<Rightarrow>
          (case elements_loop [] printed elems of
             None \<Rightarrow> None
           | Some (Inl e) \<Rightarrow> Some (Uncaught e)
           | Some (Inr (all_polys, printed')) \<Rightarrow>
               Some (Written all_polys (printed' @ [Wrote outp (length all_polys)]))))"

text \<open>\<^verbatim>\<open>main\<close>, with \<open>root\<close> the root \<^verbatim>\<open>ET.parse(inp).getroot()\<close> returns.\<close>

definition main :: "string list \<Rightarrow> element \<Rightarrow> outcome option" where
  "main argv doc =
     (case parse_args argv of
        Inl (code, msg) \<Rightarrow> Some (Exit code msg)
      | Inr (inp, outp, key, val) \<Rightarrow> process doc outp key val)"

section \<open>Predicates used in the statements\<close>

text \<open>Every subpath of a state holds a point.\<close>

definition subpaths_nonempty :: "state \<Rightarrow> bool" where
  "subpaths_nonempty st = ([] \<notin> set (polys st))"

text \<open>
  What may follow a number in a string without becoming part of it: the end, or a
  character that is no digit, no point and no exponent letter.
\<close>

definition number_ends :: "string \<Rightarrow> bool" where
  "number_ends x = (x = [] \<or> (\<not> is_digit (hd x) \<and> hd x \<noteq> CHR ''.'' \<and> hd x \<noteq> CHR ''e'' \<and> hd x \<noteq> CHR ''E''))"

text \<open>Tokens that are numbers: no command letters, and \<^verbatim>\<open>float\<close> reads them.\<close>

definition numbers :: "string list \<Rightarrow> bool" where
  "numbers ns = list_all (\<lambda>t. \<not> is_cmd t \<and> float_str t = Inr (num_value t)) ns"

text \<open>
  Well-formed \<^verbatim>\<open>points\<close> text: a literal is a string the number pattern matches as a
  whole, separators are one or more commas or whitespace characters, and the text of a
  list of pairs puts a separator into each pair and between the pairs; the last
  component of an entry is the separator behind the pair, unused behind the last.
\<close>

definition literal :: "string \<Rightarrow> bool" where
  "literal a = (match_num a = Some (a, []))"

definition separators :: "string \<Rightarrow> bool" where
  "separators s = (s \<noteq> [] \<and> list_all is_sep s)"

fun join_pairs :: "(string \<times> string \<times> string \<times> string) list \<Rightarrow> string" where
  "join_pairs [] = []"
| "join_pairs [(a, s, b, g)] = a @ s @ b"
| "join_pairs ((a, s, b, g) # p # ps) = a @ s @ b @ g @ join_pairs (p # ps)"

definition pair_ok :: "string \<times> string \<times> string \<times> string \<Rightarrow> bool" where
  "pair_ok p = (case p of (a, s, b, g) \<Rightarrow> literal a \<and> separators s \<and> literal b \<and> separators g)"

definition point_of :: "string \<times> string \<Rightarrow> point" where
  "point_of p = (num_value (fst p), num_value (snd p))"

text \<open>The characters a matched number can hold.\<close>

definition number_char :: "char \<Rightarrow> bool" where
  "number_char c = (is_digit c \<or> c = CHR ''.'' \<or> c = CHR ''e'' \<or> c = CHR ''E''
     \<or> c = CHR ''+'' \<or> c = CHR ''-'')"

text \<open>An outcome with one more message printed first.\<close>

definition warned :: "message \<Rightarrow> outcome option \<Rightarrow> outcome option" where
  "warned m r = (case r of Some (Written ps ms) \<Rightarrow> Some (Written ps (m # ms)) | _ \<Rightarrow> r)"

text \<open>
  A closepath turn in front of a number: the token at \<^verbatim>\<open>i\<close> is no command letter and
  \<^verbatim>\<open>cmd\<close> is \<^verbatim>\<open>Z\<close> or \<^verbatim>\<open>z\<close>.
\<close>

definition stuck :: "state \<Rightarrow> string list \<Rightarrow> bool" where
  "stuck st ts = (ts \<noteq> [] \<and> \<not> is_cmd (hd ts) \<and> (cmd st = Some ''Z'' \<or> cmd st = Some ''z''))"

section \<open>Evaluation\<close>

text \<open>The equations that unfold the model on a concrete input.\<close>

lemmas num_defs = float_str_def num_value_def sign_split_def digits_val_def digit_val_def
  pow10_def match_num_def mantissa_def digits1_def is_digit_def exponent_def is_cmd_char_def
  is_cmd_def

lemmas interp_defs = path_to_points_def run.simps step_def moveto_def lineto_def hlineto_def
  vlineto_def seeded_def init_state_def m_pairs.simps l_pairs.simps h_nums.simps v_nums.simps
  close_poly_def closepath_def Let_def

lemmas elem_defs = element_step_def get_def ends_with_def truthy_def transformed_def
  element_transform_def match_item_def starts_with_def is_space_def item_args_def
  re_split_seps.simps strip_def is_sep_def accumulate_def identity_transform_def
  apply_simple_transform_def drop_closing_def svg_path_def svg_polygon_def
  polygon_points_attr_to_list_def match_pair_def

lemmas main_defs = main_def process_def choose_elements_def select_elements_def findall_def
  selected_def parse_args_def parse_select_def split_on.simps split1_def split_ws.simps
  ink_label_def

section \<open>Tokens\<close>

text \<open>A matched number is matched again, alone or before anything that ends a number.\<close>

lemma digits1_iff:
  "digits1 s = Some (t, r) \<longleftrightarrow>
     t \<noteq> [] \<and> s = t @ r \<and> (\<forall>c \<in> set t. is_digit c) \<and> (r = [] \<or> \<not> is_digit (hd r))"
proof
  assume "digits1 s = Some (t, r)"
  then have t: "t = takeWhile is_digit s" and r: "r = dropWhile is_digit s" and ne: "t \<noteq> []"
    by (auto simp: digits1_def split: if_splits)
  show "t \<noteq> [] \<and> s = t @ r \<and> (\<forall>c \<in> set t. is_digit c) \<and> (r = [] \<or> \<not> is_digit (hd r))"
    using ne hd_dropWhile [of is_digit s] unfolding t r
    by (auto dest: set_takeWhileD)
next
  assume a: "t \<noteq> [] \<and> s = t @ r \<and> (\<forall>c \<in> set t. is_digit c) \<and> (r = [] \<or> \<not> is_digit (hd r))"
  then have tr: "takeWhile is_digit r = []" and dr: "dropWhile is_digit r = r"
    by (cases r; auto)+
  from a have "takeWhile is_digit s = t" "dropWhile is_digit s = r"
    by (simp_all add: takeWhile_append2 dropWhile_append2 tr dr)
  with a show "digits1 s = Some (t, r)"
    by (simp add: digits1_def)
qed

lemma digits1_None_iff: "digits1 s = None \<longleftrightarrow> (s = [] \<or> \<not> is_digit (hd s))"
  by (cases s) (auto simp: digits1_def)


lemma not_digit_chars [simp]:
  "\<not> is_digit CHR ''.''" "\<not> is_digit CHR ''e''" "\<not> is_digit CHR ''E''"
  "\<not> is_digit CHR ''+''" "\<not> is_digit CHR ''-''"
  by (simp_all add: is_digit_def)

lemma takeWhile_takeWhile_append:
  "ys = [] \<or> \<not> P (hd ys) \<Longrightarrow> takeWhile P (takeWhile P xs @ ys) = takeWhile P xs"
proof (induction xs)
  case Nil
  then show ?case by (cases ys) auto
next
  case (Cons a xs)
  then show ?case by (cases ys) (auto dest: set_takeWhileD)
qed

lemma dropWhile_takeWhile_append:
  "ys = [] \<or> \<not> P (hd ys) \<Longrightarrow> dropWhile P (takeWhile P xs @ ys) = ys"
proof (induction xs)
  case Nil
  then show ?case by (cases ys) auto
next
  case (Cons a xs)
  then show ?case by (cases ys) auto
qed

lemma digits1_stable:
  assumes "digits1 s = Some (t, r)" and "y = [] \<or> \<not> is_digit (hd y)"
  shows "digits1 (t @ y) = Some (t, y)"
  using assms by (simp add: digits1_iff)

lemma mantissa_stable:
  assumes "mantissa s = Some (m, r)" and "y = [] \<or> (\<not> is_digit (hd y) \<and> hd y \<noteq> CHR ''.'')"
  shows "mantissa (m @ y) = Some (m, y)"
proof (cases "digits1 s")
  case None
  with assms(1) obtain fp r1 where s: "s = CHR ''.'' # r1" and d: "digits1 r1 = Some (fp, r)"
    and m: "m = CHR ''.'' # fp"
    by (auto simp: mantissa_def split: list.splits if_splits option.splits)
  from assms(2) have "digits1 (fp @ y) = Some (fp, y)"
    by (intro digits1_stable [OF d]) auto
  then show ?thesis
    by (simp add: mantissa_def m digits1_None_iff [THEN iffD2])
next
  case (Some p)
  obtain ip r0 where p: "p = (ip, r0)" by (cases p)
  note d = Some [unfolded p]
  from d have ip: "ip \<noteq> []" "\<forall>c \<in> set ip. is_digit c" by (simp_all add: digits1_iff)
  show ?thesis
  proof (cases "r0 \<noteq> [] \<and> hd r0 = CHR ''.''")
    case True
    then obtain r' where r0: "r0 = CHR ''.'' # r'" by (cases r0) auto
    from assms(1) d r0 have m: "m = ip @ CHR ''.'' # takeWhile is_digit r'"
      by (simp add: mantissa_def)
    have 1: "digits1 (m @ y) = Some (ip, CHR ''.'' # takeWhile is_digit r' @ y)"
      using ip by (simp add: digits1_iff m)
    have 2: "takeWhile is_digit (takeWhile is_digit r' @ y) = takeWhile is_digit r'"
      using assms(2) by (intro takeWhile_takeWhile_append) auto
    have 3: "dropWhile is_digit (takeWhile is_digit r' @ y) = y"
      using assms(2) by (intro dropWhile_takeWhile_append) auto
    show ?thesis
      by (simp add: mantissa_def 1 2 3) (simp add: m)
  next
    case False
    with assms(1) d have m: "m = ip"
      by (auto simp: mantissa_def split: list.splits if_splits)
    have 1: "digits1 (m @ y) = Some (ip, y)"
      using ip assms(2) by (auto simp: digits1_iff m)
    show ?thesis
      using assms(2) 1 [unfolded m] by (cases y) (auto simp: mantissa_def m)
  qed
qed


lemma exponent_head:
  "exponent s = (e, r) \<Longrightarrow> e = [] \<or> hd e = CHR ''e'' \<or> hd e = CHR ''E''"
  by (auto simp: exponent_def split: list.splits if_splits option.splits)

lemma exponent_stable:
  assumes "exponent s = (e, r)" and "number_ends x"
  shows "exponent (e @ x) = (e, x)"
proof (cases "e = []")
  case True
  with assms(2) show ?thesis
    by (cases x) (auto simp: exponent_def number_ends_def)
next
  case False
  with assms(1) consider
      (signed) c g ds r1 where "e = c # g # ds" "c = CHR ''e'' \<or> c = CHR ''E''"
        "g = CHR ''+'' \<or> g = CHR ''-''" "digits1 r1 = Some (ds, r)"
    | (plain) c ds r1 where "e = c # ds" "c = CHR ''e'' \<or> c = CHR ''E''"
        "digits1 r1 = Some (ds, r)" "r1 \<noteq> []" "hd r1 \<noteq> CHR ''+''" "hd r1 \<noteq> CHR ''-''"
    by (auto simp: exponent_def split: list.splits if_splits option.splits)
  then show ?thesis
  proof cases
    case signed
    from assms(2) have "digits1 (ds @ x) = Some (ds, x)"
      by (intro digits1_stable [OF signed(4)]) (auto simp: number_ends_def)
    with signed show ?thesis
      by (auto simp: exponent_def)
  next
    case plain
    from assms(2) have d: "digits1 (ds @ x) = Some (ds, x)"
      by (intro digits1_stable [OF plain(3)]) (auto simp: number_ends_def)
    from plain(3) have "ds \<noteq> []" "is_digit (hd ds)"
      by (auto simp: digits1_iff)
    then obtain d0 ds' where ds: "ds = d0 # ds'" "is_digit d0"
      by (cases ds) auto
    then have "d0 \<noteq> CHR ''+''" "d0 \<noteq> CHR ''-''" by auto
    with plain d ds show ?thesis
      by (auto simp: exponent_def)
  qed
qed

lemma mantissa_head:
  "mantissa s = Some (m, r) \<Longrightarrow> m \<noteq> [] \<and> (is_digit (hd m) \<or> hd m = CHR ''.'') \<and> hd m = hd s"
proof -
  assume a: "mantissa s = Some (m, r)"
  show ?thesis
  proof (cases "digits1 s")
    case None
    with a show ?thesis
      by (auto simp: mantissa_def split: list.splits if_splits option.splits)
  next
    case (Some p)
    obtain ip r0 where p: "p = (ip, r0)" by (cases p)
    from Some p have ip: "ip \<noteq> []" "s = ip @ r0" "is_digit (hd ip)"
      by (auto simp: digits1_iff)
    from a Some p have "m = ip \<or> (\<exists>z. m = ip @ z)"
      by (auto simp: mantissa_def split: list.splits if_splits)
    with ip show ?thesis by auto
  qed
qed


lemma mantissa_exponent_stable:
  assumes m: "mantissa s = Some (m, r1)" and e: "exponent r1 = (e, r2)" and x: "number_ends x"
  shows "mantissa (m @ e @ x) = Some (m, e @ x) \<and> exponent (e @ x) = (e, x)"
proof -
  have "e @ x = [] \<or> (\<not> is_digit (hd (e @ x)) \<and> hd (e @ x) \<noteq> CHR ''.'')"
    using exponent_head [OF e] x by (cases e) (auto simp: number_ends_def)
  from mantissa_stable [OF m this] exponent_stable [OF e x] show ?thesis by simp
qed

lemma match_num_stable:
  assumes "match_num s = Some (t, r)" and "number_ends x"
  shows "match_num (t @ x) = Some (t, x)"
proof -
  from assms(1) obtain g s' where s: "s = g # s'"
    by (cases s) (auto simp: match_num_def)
  show ?thesis
  proof (cases "g = CHR ''+'' \<or> g = CHR ''-''")
    case True
    with assms(1) s obtain m r1 e where m: "mantissa s' = Some (m, r1)"
      and e: "exponent r1 = (e, r)" and t: "t = g # m @ e"
      by (auto simp: match_num_def split: option.splits prod.splits)
    from mantissa_exponent_stable [OF m e assms(2)] True show ?thesis
      by (simp add: match_num_def t)
  next
    case False
    with assms(1) s obtain m r1 e where m: "mantissa s = Some (m, r1)"
      and e: "exponent r1 = (e, r)" and t: "t = m @ e"
      by (auto simp: match_num_def split: option.splits prod.splits)
    from mantissa_head [OF m] s False obtain m0 m' where m': "m = m0 # m'" "m0 \<noteq> CHR ''+''" "m0 \<noteq> CHR ''-''"
      by (cases m) auto
    from mantissa_exponent_stable [OF m e assms(2)] m' show ?thesis
      by (simp add: match_num_def t)
  qed
qed

lemma float_str_token:
  assumes "match_num s = Some (t, r)"
  shows "float_str t = Inr (num_value t)"
  using match_num_stable [OF assms, of "[]"]
  by (simp add: float_str_def number_ends_def)


lemma match_num_head:
  assumes "match_num s = Some (t, r)"
  shows "t \<noteq> [] \<and> (is_digit (hd t) \<or> hd t = CHR ''.'' \<or> hd t = CHR ''+'' \<or> hd t = CHR ''-'')"
proof -
  from assms obtain g s' where s: "s = g # s'"
    by (cases s) (auto simp: match_num_def)
  show ?thesis
  proof (cases "g = CHR ''+'' \<or> g = CHR ''-''")
    case True
    with assms s show ?thesis
      by (auto simp: match_num_def split: option.splits prod.splits)
  next
    case False
    with assms s obtain m r1 e where m: "mantissa s = Some (m, r1)" and t: "t = m @ e"
      by (auto simp: match_num_def split: option.splits prod.splits)
    from mantissa_head [OF m] show ?thesis
      by (auto simp: t)
  qed
qed

lemma not_cmd_digit: "is_digit c \<Longrightarrow> \<not> is_cmd_char c"
  by (auto simp: is_digit_def is_cmd_char_def)

lemma not_cmd_chars [simp]:
  "\<not> is_cmd_char CHR ''.''" "\<not> is_cmd_char CHR ''+''" "\<not> is_cmd_char CHR ''-''"
  by (simp_all add: is_cmd_char_def)

lemma match_num_not_cmd:
  assumes "match_num s = Some (t, r)"
  shows "\<not> is_cmd t"
proof
  assume "is_cmd t"
  then obtain c where t: "t = [c]" and c: "is_cmd_char c"
    by (auto simp: is_cmd_def split: list.splits)
  from match_num_head [OF assms] t c show False
    by (auto dest: not_cmd_digit)
qed

lemma is_cmd_float_str: "is_cmd t \<Longrightarrow> float_str t = Inl (FloatError t)"
proof -
  assume "is_cmd t"
  then obtain c where t: "t = [c]" and c: "is_cmd_char c"
    by (auto simp: is_cmd_def split: list.splits)
  have "match_num t = None"
  proof (cases "match_num t")
    case None then show ?thesis .
  next
    case (Some p)
    obtain a b where "p = (a, b)" by (cases p)
    with Some match_num_head [of t a b] match_num_split [of t a b] t c show ?thesis
      by (cases a) (auto dest: not_cmd_digit)
  qed
  then show ?thesis by (simp add: float_str_def)
qed

lemma CMD_findall_tokens:
  "t \<in> set (CMD_findall s) \<Longrightarrow> is_cmd t \<or> float_str t = Inr (num_value t)"
proof (induction s rule: CMD_findall.induct)
  case 1
  then show ?case by simp
next
  case (2 c s)
  show ?case
  proof (cases "is_cmd_char c")
    case True
    with 2 show ?thesis by (auto simp: is_cmd_def)
  next
    case False
    show ?thesis
    proof (cases "match_num (c # s)")
      case None
      with 2 False show ?thesis by auto
    next
      case (Some p)
      obtain tok rest where p: "p = (tok, rest)" by (cases p)
      from 2 False Some p float_str_token [OF Some [unfolded p]] show ?thesis by auto
    qed
  qed
qed

section \<open>Unsupported command letters\<close>

text \<open>
  C1 (the code departs from the claim). The claim: a path string with a command letter
  outside M, m, L, l, H, h, V, v, Z, z fails with the unsupported-command error and its
  element is skipped. The tokenizer drops the letter \<^verbatim>\<open>C\<close> like any other character
  it does not know, so the interpreter never sees it: the numbers of the curve are read
  as further pairs of the command before, and the path returns a polygon.
\<close>

theorem curve_letter_is_dropped:
  "CMD_findall ''M0,0 C1,2 3,4 5,6'' = [''M'', ''0'', ''0'', ''1'', ''2'', ''3'', ''4'', ''5'', ''6'']
   \<and> path_to_points ''M0,0 C1,2 3,4 5,6''
       = Some (Inr [[(0, 0), (1, 2), (3, 4), (5, 6), (0, 0)]])
   \<and> element_step (Element svg_path [(''d'', ''M0,0 C1,2 3,4 5,6'')] [])
       = Some (Inr ([[(0, 0), (1, 2), (3, 4), (5, 6)]], []))"
  by (simp add: num_defs interp_defs elem_defs)

section \<open>The selector on the command line\<close>

text \<open>
  C3 (the code departs from the claim). The claim: with the arguments
  \<^verbatim>\<open>input output --select KEY=VALUE\<close> the selector is read as the pair of KEY and
  VALUE. The code looks for the selector inside \<^verbatim>\<open>sys.argv[3]\<close> itself, behind its first
  \<^verbatim>\<open>=\<close>, and what stands there holds no further \<^verbatim>\<open>=\<close>, so it is split at a colon: the
  usage line's own form exits with code 2, as does \<^verbatim>\<open>--select=id=walkable\<close>, and only
  \<^verbatim>\<open>--select=id:walkable\<close> is read as a selector.
\<close>

theorem select_key_equals_value_exits:
  "parse_args [''svg2walkable.py'', ''in.svg'', ''out.json'', ''--select'', ''id=walkable'']
     = Inl (2, BadSelect)
   \<and> parse_args [''svg2walkable.py'', ''in.svg'', ''out.json'', ''--select=id=walkable'']
     = Inl (2, BadSelect)
   \<and> parse_args [''svg2walkable.py'', ''in.svg'', ''out.json'', ''--select=id:walkable'']
     = Inr (''in.svg'', ''out.json'', Some ''id'', Some ''walkable'')"
  by (simp add: main_defs starts_with_def)

section \<open>Implicit repetition and relative commands\<close>

text \<open>
  C4. The path string \<^verbatim>\<open>M0,0 L10,0 20,0 30,0\<close> yields one subpath: when the loop ends
  its points are (0,0), (10,0), (20,0), (30,0), the pairs behind the first argument of
  \<^verbatim>\<open>L\<close> being appended to the same subpath, and the closing pass adds (0,0).
\<close>

theorem implicit_lineto_repetition:
  "run init_state (CMD_findall ''M0,0 L10,0 20,0 30,0'')
     = Some (Inr \<lparr>cur = (30, 0), start = Some (0, 0),
                  polys = [[(0, 0), (10, 0), (20, 0), (30, 0)]], cmd = Some ''L''\<rparr>)
   \<and> path_to_points ''M0,0 L10,0 20,0 30,0''
     = Some (Inr [[(0, 0), (10, 0), (20, 0), (30, 0), (0, 0)]])"
  by (simp add: num_defs interp_defs)

text \<open>
  C5. Relative commands move from the running cursor: \<^verbatim>\<open>M0,0 l10,0 l0,10 z\<close> gives
  the one closed ring (0,0), (10,0), (10,10), (0,0), and the polygon written for a
  document with this one path is (0,0), (10,0), (10,10), the closing point dropped.
\<close>

theorem relative_lineto_ring:
  "path_to_points ''M0,0 l10,0 l0,10 z'' = Some (Inr [[(0, 0), (10, 0), (10, 10), (0, 0)]])
   \<and> element_step (Element svg_path [(''d'', ''M0,0 l10,0 l0,10 z'')] [])
     = Some (Inr ([[(0, 0), (10, 0), (10, 10)]], []))
   \<and> main [''svg2walkable.py'', ''in.svg'', ''out.json'']
        (Element ''{http://www.w3.org/2000/svg}svg'' []
           [Element svg_path [(''d'', ''M0,0 l10,0 l0,10 z'')] []])
     = Some (Written [[(0, 0), (10, 0), (10, 10)]] [Wrote ''out.json'' 1])"
  by (simp add: num_defs interp_defs elem_defs main_defs)

section \<open>Every returned subpath is a closed ring\<close>

text \<open>The inner loops only append to the subpath they are given.\<close>

lemma m_pairs_extends:
  "m_pairs c poly cu ts = Inr (poly', cu', ts') \<Longrightarrow> \<exists>ext. poly' = poly @ ext"
proof (induction c poly cu ts rule: m_pairs.induct)
  case (1 c poly cu ts)
  show ?case
  proof (cases "ts = [] \<or> is_cmd (hd ts)")
    case True
    with "1.prems" show ?thesis by (simp add: m_pairs.simps)
  next
    case False
    with "1.prems" obtain x ts1 y ts2 where
      r1: "readnum ts = Inr (x, ts1)" and r2: "readnum ts1 = Inr (y, ts2)"
      by (subst (asm) m_pairs.simps) (auto split: sum.splits)
    define nxt where "nxt = (if c = ''m'' then (fst (last poly) + x, snd (last poly) + y) else (x, y))"
    from "1.prems" False r1 r2 have "m_pairs c (poly @ [nxt]) nxt ts2 = Inr (poly', cu', ts')"
      by (subst (asm) m_pairs.simps) (simp add: nxt_def Let_def)
    with "1.IH" [OF False r1 refl r2 refl nxt_def] show ?thesis by auto
  qed
qed

lemma l_pairs_extends:
  "l_pairs c poly cu ts = Inr (poly', cu', ts') \<Longrightarrow> \<exists>ext. poly' = poly @ ext"
proof (induction c poly cu ts rule: l_pairs.induct)
  case (1 c poly cu ts)
  show ?case
  proof (cases "ts = [] \<or> is_cmd (hd ts)")
    case True
    with "1.prems" show ?thesis by (simp add: l_pairs.simps)
  next
    case False
    with "1.prems" obtain x ts1 y ts2 where
      r1: "readnum ts = Inr (x, ts1)" and r2: "readnum ts1 = Inr (y, ts2)"
      by (subst (asm) l_pairs.simps) (auto split: sum.splits)
    define nxt where "nxt = (if c = ''l'' then (fst cu + x, snd cu + y) else (x, y))"
    from "1.prems" False r1 r2 have "l_pairs c (poly @ [nxt]) nxt ts2 = Inr (poly', cu', ts')"
      by (subst (asm) l_pairs.simps) (simp add: nxt_def Let_def)
    with "1.IH" [OF False r1 refl r2 refl nxt_def] show ?thesis by auto
  qed
qed

lemma h_nums_extends:
  "h_nums c poly cu ts = Inr (poly', cu', ts') \<Longrightarrow> \<exists>ext. poly' = poly @ ext"
proof (induction c poly cu ts rule: h_nums.induct)
  case (1 c poly cu ts)
  show ?case
  proof (cases "ts = [] \<or> is_cmd (hd ts)")
    case True
    with "1.prems" show ?thesis by (simp add: h_nums.simps)
  next
    case False
    with "1.prems" obtain x ts1 where r1: "readnum ts = Inr (x, ts1)"
      by (subst (asm) h_nums.simps) (auto split: sum.splits)
    define nxt where "nxt = (if c = ''h'' then (fst cu + x, snd cu) else (x, snd cu))"
    from "1.prems" False r1 have "h_nums c (poly @ [nxt]) nxt ts1 = Inr (poly', cu', ts')"
      by (subst (asm) h_nums.simps) (simp add: nxt_def Let_def)
    with "1.IH" [OF False r1 refl nxt_def] show ?thesis by auto
  qed
qed

lemma v_nums_extends:
  "v_nums c poly cu ts = Inr (poly', cu', ts') \<Longrightarrow> \<exists>ext. poly' = poly @ ext"
proof (induction c poly cu ts rule: v_nums.induct)
  case (1 c poly cu ts)
  show ?case
  proof (cases "ts = [] \<or> is_cmd (hd ts)")
    case True
    with "1.prems" show ?thesis by (simp add: v_nums.simps)
  next
    case False
    with "1.prems" obtain y ts1 where r1: "readnum ts = Inr (y, ts1)"
      by (subst (asm) v_nums.simps) (auto split: sum.splits)
    define nxt where "nxt = (if c = ''v'' then (fst cu, snd cu + y) else (fst cu, y))"
    from "1.prems" False r1 have "v_nums c (poly @ [nxt]) nxt ts1 = Inr (poly', cu', ts')"
      by (subst (asm) v_nums.simps) (simp add: nxt_def Let_def)
    with "1.IH" [OF False r1 refl nxt_def] show ?thesis by auto
  qed
qed

lemma subpaths_nonempty_cmd [simp]: "subpaths_nonempty (st\<lparr>cmd := c\<rparr>) = subpaths_nonempty st"
  by (simp add: subpaths_nonempty_def)

lemma seeded_last: "subpaths_nonempty st \<Longrightarrow> last (seeded st) \<noteq> []"
  by (auto simp: seeded_def subpaths_nonempty_def dest: last_in_set)

lemma seeded_butlast: "subpaths_nonempty st \<Longrightarrow> [] \<notin> set (butlast (seeded st))"
  by (auto simp: seeded_def subpaths_nonempty_def dest: in_set_butlastD)

lemma closepath_nonempty: "subpaths_nonempty st \<Longrightarrow> subpaths_nonempty (closepath st)"
  by (auto simp: subpaths_nonempty_def closepath_def Let_def dest: in_set_butlastD)

lemma moveto_nonempty:
  assumes "moveto c st ts = Inr (st', ts')" and "subpaths_nonempty st"
  shows "subpaths_nonempty st'"
  using assms unfolding moveto_def Let_def subpaths_nonempty_def
  by (auto split: sum.splits dest!: m_pairs_extends)

lemma lineto_nonempty:
  assumes "lineto c st ts = Inr (st', ts')" and "subpaths_nonempty st"
  shows "subpaths_nonempty st'"
  using assms seeded_last [of st] seeded_butlast [of st] unfolding lineto_def subpaths_nonempty_def
  by (auto split: sum.splits dest!: l_pairs_extends)

lemma hlineto_nonempty:
  assumes "hlineto c st ts = Inr (st', ts')" and "subpaths_nonempty st"
  shows "subpaths_nonempty st'"
  using assms seeded_last [of st] seeded_butlast [of st] unfolding hlineto_def subpaths_nonempty_def
  by (auto split: sum.splits dest!: h_nums_extends)

lemma vlineto_nonempty:
  assumes "vlineto c st ts = Inr (st', ts')" and "subpaths_nonempty st"
  shows "subpaths_nonempty st'"
  using assms seeded_last [of st] seeded_butlast [of st] unfolding vlineto_def subpaths_nonempty_def
  by (auto split: sum.splits dest!: v_nums_extends)

lemma step_nonempty:
  assumes "step st t rest = Inr (st', ts')" and "subpaths_nonempty st"
  shows "subpaths_nonempty st'"
proof -
  define c where "c = (if is_cmd t then Some t else cmd st)"
  define ts where "ts = (if is_cmd t then rest else t # rest)"
  have ne: "subpaths_nonempty (st\<lparr>cmd := c\<rparr>)" using assms(2) by simp
  from assms(1) consider
      "moveto (the c) (st\<lparr>cmd := c\<rparr>) ts = Inr (st', ts')"
    | "lineto (the c) (st\<lparr>cmd := c\<rparr>) ts = Inr (st', ts')"
    | "hlineto (the c) (st\<lparr>cmd := c\<rparr>) ts = Inr (st', ts')"
    | "vlineto (the c) (st\<lparr>cmd := c\<rparr>) ts = Inr (st', ts')"
    | "st' = closepath (st\<lparr>cmd := c\<rparr>)"
    unfolding step_def Let_def c_def [symmetric] ts_def [symmetric]
    by (auto split: if_splits)
  then show ?thesis
    using ne
    by cases (auto dest: moveto_nonempty lineto_nonempty hlineto_nonempty vlineto_nonempty
        intro: closepath_nonempty)
qed

lemma run_nonempty_aux:
  assumes "run st ts = Some y"
  shows "\<forall>st'. y = Inr st' \<longrightarrow> subpaths_nonempty st \<longrightarrow> subpaths_nonempty st'"
  using assms
proof (induction st ts y rule: run.raw_induct [rotated, consumes 1, case_names turn])
  case (turn run' st ts y)
  show ?case
  proof (cases ts)
    case Nil
    with turn.hyps show ?thesis by auto
  next
    case (Cons t rest)
    show ?thesis
    proof (cases "step st t rest")
      case (Inl e)
      with turn.hyps Cons show ?thesis by auto
    next
      case (Inr p)
      obtain st1 ts1 where p: "p = (st1, ts1)" by (cases p)
      from turn.hyps Cons Inr p have "run' st1 ts1 = Some y" by simp
      from turn.IH [OF this] step_nonempty [OF Inr [unfolded p]] show ?thesis by blast
    qed
  qed
qed

lemma close_poly_closed: "p \<noteq> [] \<Longrightarrow> close_poly p \<noteq> [] \<and> hd (close_poly p) = last (close_poly p)"
  by (simp add: close_poly_def)

text \<open>
  C2. Whenever the interpreter returns subpaths for a path string, each of them is
  non-empty and its first point equals its last. They are the subpaths the main loop
  ended with, each passed once through the closing pass, which appends the first point
  of a subpath whose first and last points differ and leaves the others as they are.
\<close>

theorem path_to_points_closed_rings:
  assumes "path_to_points d = Some (Inr ps)"
  shows "(\<forall>p \<in> set ps. p \<noteq> [] \<and> hd p = last p)
    \<and> (\<exists>st. run init_state (CMD_findall d) = Some (Inr st) \<and> ps = map close_poly (polys st)
          \<and> (\<forall>q \<in> set (polys st). q \<noteq> [] \<and> close_poly q = (if hd q = last q then q else q @ [hd q])))"
proof -
  from assms obtain st where r: "run init_state (CMD_findall d) = Some (Inr st)"
    and ps: "ps = map close_poly (polys st)"
    by (auto simp: path_to_points_def split: option.splits sum.splits)
  have "subpaths_nonempty init_state"
    by (simp add: subpaths_nonempty_def init_state_def)
  with run_nonempty_aux [OF r] have ne: "subpaths_nonempty st" by blast
  then have q: "\<forall>q \<in> set (polys st). q \<noteq> []"
    by (auto simp: subpaths_nonempty_def)
  then have "\<forall>p \<in> set ps. p \<noteq> [] \<and> hd p = last p"
    unfolding ps using close_poly_closed by auto
  moreover have "\<forall>q \<in> set (polys st). q \<noteq> [] \<and> close_poly q = (if hd q = last q then q else q @ [hd q])"
    using q by (auto simp: close_poly_def)
  ultimately show ?thesis using r ps by blast
qed

theorem path_to_points_closed_rings_witness:
  "path_to_points ''M1,2 3,4 h5 v-1 M7,7'' = Some (Inr [[(1, 2), (3, 4), (8, 4), (8, 3), (1, 2)], [(7, 7)]])
   \<and> hd [(1, 2), (3, 4), (8, 4), (8, 3), (1::rat, 2::rat)] = last [(1, 2), (3, 4), (8, 4), (8, 3), (1, 2)]
   \<and> hd [(7::rat, 7::rat)] = last [(7, 7)]"
proof -
  have h: "path_to_points ''M1,2 3,4 h5 v-1 M7,7'' = Some (Inr [[(1, 2), (3, 4), (8, 4), (8, 3), (1, 2)], [(7, 7)]])"
    by (simp add: num_defs interp_defs)
  from path_to_points_closed_rings [OF h] h show ?thesis by simp
qed
section \<open>Running out of tokens\<close>

text \<open>
  What the loop does on a list of tokens it does on the same tokens followed by a
  command letter, up to that letter.
\<close>

lemma readnum_append:
  "readnum ts = Inr (v, ts') \<Longrightarrow> readnum (ts @ xs) = Inr (v, ts' @ xs)"
  by (cases ts) (auto split: sum.splits)

lemma m_pairs_append:
  assumes "m_pairs c poly cu ts = Inr (poly', cu', ts')" and "is_cmd x"
  shows "m_pairs c poly cu (ts @ x # xs) = Inr (poly', cu', ts' @ x # xs)"
  using assms(1)
proof (induction c poly cu ts rule: m_pairs.induct)
  case (1 c poly cu ts)
  show ?case
  proof (cases "ts = [] \<or> is_cmd (hd ts)")
    case True
    with "1.prems" assms(2) show ?thesis
      by (cases ts) (auto simp: m_pairs.simps)
  next
    case False
    with "1.prems" obtain a ts1 b ts2 where
      r1: "readnum ts = Inr (a, ts1)" and r2: "readnum ts1 = Inr (b, ts2)"
      by (subst (asm) m_pairs.simps) (auto split: sum.splits)
    define nxt where "nxt = (if c = ''m'' then (fst (last poly) + a, snd (last poly) + b) else (a, b))"
    from "1.prems" False r1 r2 have "m_pairs c (poly @ [nxt]) nxt ts2 = Inr (poly', cu', ts')"
      by (subst (asm) m_pairs.simps) (simp add: nxt_def Let_def)
    from "1.IH" [OF False r1 refl r2 refl nxt_def this]
    have "m_pairs c (poly @ [nxt]) nxt (ts2 @ x # xs) = Inr (poly', cu', ts' @ x # xs)" .
    moreover from False have "\<not> (ts @ x # xs = [] \<or> is_cmd (hd (ts @ x # xs)))"
      by (cases ts) auto
    ultimately show ?thesis
      using readnum_append [OF r1, of "x # xs"] readnum_append [OF r2, of "x # xs"]
      by (subst m_pairs.simps) (simp add: nxt_def Let_def)
  qed
qed


lemma l_pairs_append:
  assumes "l_pairs c poly cu ts = Inr (poly', cu', ts')" and "is_cmd x"
  shows "l_pairs c poly cu (ts @ x # xs) = Inr (poly', cu', ts' @ x # xs)"
  using assms(1)
proof (induction c poly cu ts rule: l_pairs.induct)
  case (1 c poly cu ts)
  show ?case
  proof (cases "ts = [] \<or> is_cmd (hd ts)")
    case True
    with "1.prems" assms(2) show ?thesis
      by (cases ts) (auto simp: l_pairs.simps)
  next
    case False
    with "1.prems" obtain a ts1 b ts2 where
      r1: "readnum ts = Inr (a, ts1)" and r2: "readnum ts1 = Inr (b, ts2)"
      by (subst (asm) l_pairs.simps) (auto split: sum.splits)
    define nxt where "nxt = (if c = ''l'' then (fst cu + a, snd cu + b) else (a, b))"
    from "1.prems" False r1 r2 have "l_pairs c (poly @ [nxt]) nxt ts2 = Inr (poly', cu', ts')"
      by (subst (asm) l_pairs.simps) (simp add: nxt_def Let_def)
    from "1.IH" [OF False r1 refl r2 refl nxt_def this]
    have "l_pairs c (poly @ [nxt]) nxt (ts2 @ x # xs) = Inr (poly', cu', ts' @ x # xs)" .
    moreover from False have "\<not> (ts @ x # xs = [] \<or> is_cmd (hd (ts @ x # xs)))"
      by (cases ts) auto
    ultimately show ?thesis
      using readnum_append [OF r1, of "x # xs"] readnum_append [OF r2, of "x # xs"]
      by (subst l_pairs.simps) (simp add: nxt_def Let_def)
  qed
qed

lemma h_nums_append:
  assumes "h_nums c poly cu ts = Inr (poly', cu', ts')" and "is_cmd x"
  shows "h_nums c poly cu (ts @ x # xs) = Inr (poly', cu', ts' @ x # xs)"
  using assms(1)
proof (induction c poly cu ts rule: h_nums.induct)
  case (1 c poly cu ts)
  show ?case
  proof (cases "ts = [] \<or> is_cmd (hd ts)")
    case True
    with "1.prems" assms(2) show ?thesis
      by (cases ts) (auto simp: h_nums.simps)
  next
    case False
    with "1.prems" obtain a ts1 where r1: "readnum ts = Inr (a, ts1)"
      by (subst (asm) h_nums.simps) (auto split: sum.splits)
    define nxt where "nxt = (if c = ''h'' then (fst cu + a, snd cu) else (a, snd cu))"
    from "1.prems" False r1 have "h_nums c (poly @ [nxt]) nxt ts1 = Inr (poly', cu', ts')"
      by (subst (asm) h_nums.simps) (simp add: nxt_def Let_def)
    from "1.IH" [OF False r1 refl nxt_def this]
    have "h_nums c (poly @ [nxt]) nxt (ts1 @ x # xs) = Inr (poly', cu', ts' @ x # xs)" .
    moreover from False have "\<not> (ts @ x # xs = [] \<or> is_cmd (hd (ts @ x # xs)))"
      by (cases ts) auto
    ultimately show ?thesis
      using readnum_append [OF r1, of "x # xs"]
      by (subst h_nums.simps) (simp add: nxt_def Let_def)
  qed
qed

lemma v_nums_append:
  assumes "v_nums c poly cu ts = Inr (poly', cu', ts')" and "is_cmd x"
  shows "v_nums c poly cu (ts @ x # xs) = Inr (poly', cu', ts' @ x # xs)"
  using assms(1)
proof (induction c poly cu ts rule: v_nums.induct)
  case (1 c poly cu ts)
  show ?case
  proof (cases "ts = [] \<or> is_cmd (hd ts)")
    case True
    with "1.prems" assms(2) show ?thesis
      by (cases ts) (auto simp: v_nums.simps)
  next
    case False
    with "1.prems" obtain a ts1 where r1: "readnum ts = Inr (a, ts1)"
      by (subst (asm) v_nums.simps) (auto split: sum.splits)
    define nxt where "nxt = (if c = ''v'' then (fst cu, snd cu + a) else (fst cu, a))"
    from "1.prems" False r1 have "v_nums c (poly @ [nxt]) nxt ts1 = Inr (poly', cu', ts')"
      by (subst (asm) v_nums.simps) (simp add: nxt_def Let_def)
    from "1.IH" [OF False r1 refl nxt_def this]
    have "v_nums c (poly @ [nxt]) nxt (ts1 @ x # xs) = Inr (poly', cu', ts' @ x # xs)" .
    moreover from False have "\<not> (ts @ x # xs = [] \<or> is_cmd (hd (ts @ x # xs)))"
      by (cases ts) auto
    ultimately show ?thesis
      using readnum_append [OF r1, of "x # xs"]
      by (subst v_nums.simps) (simp add: nxt_def Let_def)
  qed
qed

lemma moveto_append:
  assumes "moveto c st ts = Inr (st', ts')" and "is_cmd x"
  shows "moveto c st (ts @ x # xs) = Inr (st', ts' @ x # xs)"
proof -
  from assms(1) obtain a ts1 b ts2 where
    r1: "readnum ts = Inr (a, ts1)" and r2: "readnum ts1 = Inr (b, ts2)"
    by (auto simp: moveto_def split: sum.splits)
  define cu where "cu = (if c = ''m'' then (fst (cur st) + a, snd (cur st) + b) else (a, b))"
  from assms(1) r1 r2 obtain poly cu' where
    m: "m_pairs c [cu] cu ts2 = Inr (poly, cu', ts')"
    and st': "st' = st\<lparr>cur := cu', start := Some cu, polys := polys st @ [poly]\<rparr>"
    by (auto simp: moveto_def Let_def cu_def split: sum.splits)
  from readnum_append [OF r1, of "x # xs"] readnum_append [OF r2, of "x # xs"]
    m_pairs_append [OF m assms(2), of xs] st'
  show ?thesis
    by (simp add: moveto_def Let_def cu_def)
qed

lemma lineto_append:
  assumes "lineto c st ts = Inr (st', ts')" and "is_cmd x"
  shows "lineto c st (ts @ x # xs) = Inr (st', ts' @ x # xs)"
proof -
  from assms(1) obtain poly cu' where
    m: "l_pairs c (last (seeded st)) (cur st) ts = Inr (poly, cu', ts')"
    and st': "st' = st\<lparr>cur := cu', polys := butlast (seeded st) @ [poly]\<rparr>"
    by (auto simp: lineto_def split: sum.splits)
  from l_pairs_append [OF m assms(2), of xs] st' show ?thesis
    by (simp add: lineto_def)
qed

lemma hlineto_append:
  assumes "hlineto c st ts = Inr (st', ts')" and "is_cmd x"
  shows "hlineto c st (ts @ x # xs) = Inr (st', ts' @ x # xs)"
proof -
  from assms(1) obtain poly cu' where
    m: "h_nums c (last (seeded st)) (cur st) ts = Inr (poly, cu', ts')"
    and st': "st' = st\<lparr>cur := cu', polys := butlast (seeded st) @ [poly]\<rparr>"
    by (auto simp: hlineto_def split: sum.splits)
  from h_nums_append [OF m assms(2), of xs] st' show ?thesis
    by (simp add: hlineto_def)
qed

lemma vlineto_append:
  assumes "vlineto c st ts = Inr (st', ts')" and "is_cmd x"
  shows "vlineto c st (ts @ x # xs) = Inr (st', ts' @ x # xs)"
proof -
  from assms(1) obtain poly cu' where
    m: "v_nums c (last (seeded st)) (cur st) ts = Inr (poly, cu', ts')"
    and st': "st' = st\<lparr>cur := cu', polys := butlast (seeded st) @ [poly]\<rparr>"
    by (auto simp: vlineto_def split: sum.splits)
  from v_nums_append [OF m assms(2), of xs] st' show ?thesis
    by (simp add: vlineto_def)
qed

lemma step_append:
  assumes "step st t rest = Inr (st', ts')" and "is_cmd x"
  shows "step st t (rest @ x # xs) = Inr (st', ts' @ x # xs)"
proof -
  define c where "c = (if is_cmd t then Some t else cmd st)"
  define ts where "ts = (if is_cmd t then rest else t # rest)"
  have ts': "(if is_cmd t then rest @ x # xs else t # rest @ x # xs) = ts @ x # xs"
    by (simp add: ts_def)
  from assms(1) consider
      (M) "c = Some ''M'' \<or> c = Some ''m''" "moveto (the c) (st\<lparr>cmd := c\<rparr>) ts = Inr (st', ts')"
    | (L) "\<not> (c = Some ''M'' \<or> c = Some ''m'')" "c = Some ''L'' \<or> c = Some ''l''"
          "lineto (the c) (st\<lparr>cmd := c\<rparr>) ts = Inr (st', ts')"
    | (H) "\<not> (c = Some ''M'' \<or> c = Some ''m'')" "\<not> (c = Some ''L'' \<or> c = Some ''l'')"
          "c = Some ''H'' \<or> c = Some ''h''"
          "hlineto (the c) (st\<lparr>cmd := c\<rparr>) ts = Inr (st', ts')"
    | (V) "\<not> (c = Some ''M'' \<or> c = Some ''m'')" "\<not> (c = Some ''L'' \<or> c = Some ''l'')"
          "\<not> (c = Some ''H'' \<or> c = Some ''h'')" "c = Some ''V'' \<or> c = Some ''v''"
          "vlineto (the c) (st\<lparr>cmd := c\<rparr>) ts = Inr (st', ts')"
    | (Z) "\<not> (c = Some ''M'' \<or> c = Some ''m'')" "\<not> (c = Some ''L'' \<or> c = Some ''l'')"
          "\<not> (c = Some ''H'' \<or> c = Some ''h'')" "\<not> (c = Some ''V'' \<or> c = Some ''v'')"
          "c = Some ''Z'' \<or> c = Some ''z''" "st' = closepath (st\<lparr>cmd := c\<rparr>)" "ts' = ts"
    unfolding step_def Let_def c_def [symmetric] ts_def [symmetric]
    by (auto split: if_splits)
  then show ?thesis
  proof cases
    case M
    from M(1) moveto_append [OF M(2) assms(2), of xs] show ?thesis
      unfolding step_def Let_def c_def [symmetric] ts' by simp
  next
    case L
    from L(1,2) lineto_append [OF L(3) assms(2), of xs] show ?thesis
      unfolding step_def Let_def c_def [symmetric] ts' by simp
  next
    case H
    from H(1,2,3) hlineto_append [OF H(4) assms(2), of xs] show ?thesis
      unfolding step_def Let_def c_def [symmetric] ts' by simp
  next
    case V
    from V(1,2,3,4) vlineto_append [OF V(5) assms(2), of xs] show ?thesis
      unfolding step_def Let_def c_def [symmetric] ts' by simp
  next
    case Z
    then show ?thesis
      unfolding step_def Let_def c_def [symmetric] ts' by simp
  qed
qed

lemma run_append_aux:
  assumes "run st ts = Some y" and "is_cmd x"
  shows "\<forall>st'. y = Inr st' \<longrightarrow> run st (ts @ x # xs) = run st' (x # xs)"
  using assms(1)
proof (induction st ts y rule: run.raw_induct [rotated, consumes 1, case_names turn])
  case (turn run' st ts y)
  show ?case
  proof (cases ts)
    case Nil
    with turn.hyps show ?thesis by auto
  next
    case (Cons t rest)
    show ?thesis
    proof (cases "step st t rest")
      case (Inl e)
      with turn.hyps Cons show ?thesis by auto
    next
      case (Inr p)
      obtain st1 ts1 where p: "p = (st1, ts1)" by (cases p)
      from turn.hyps Cons Inr p have "run' st1 ts1 = Some y" by simp
      from turn.IH [OF this] step_append [OF Inr [unfolded p] assms(2), of xs] Cons
      show ?thesis
        by (subst run.simps) simp
    qed
  qed
qed

lemma run_append:
  "run st ts = Some (Inr st') \<Longrightarrow> is_cmd x \<Longrightarrow> run st (ts @ x # xs) = run st' (x # xs)"
  using run_append_aux by blast

lemma numbers_simps [simp]:
  "numbers []"
  "numbers (t # ts) \<longleftrightarrow> \<not> is_cmd t \<and> float_str t = Inr (num_value t) \<and> numbers ts"
  by (simp_all add: numbers_def)

lemma m_pairs_odd:
  "numbers ns \<Longrightarrow> odd (length ns) \<Longrightarrow> m_pairs c poly cu ns = Inl UnexpectedEnd"
proof (induction ns arbitrary: poly cu rule: induct_list012)
  case 1
  then show ?case by simp
next
  case (2 x)
  then show ?case by (subst m_pairs.simps) simp
next
  case (3 x y zs)
  then show ?case by (subst m_pairs.simps) (simp add: Let_def)
qed

lemma l_pairs_odd:
  "numbers ns \<Longrightarrow> odd (length ns) \<Longrightarrow> l_pairs c poly cu ns = Inl UnexpectedEnd"
proof (induction ns arbitrary: poly cu rule: induct_list012)
  case 1
  then show ?case by simp
next
  case (2 x)
  then show ?case by (subst l_pairs.simps) simp
next
  case (3 x y zs)
  then show ?case by (subst l_pairs.simps) (simp add: Let_def)
qed

lemma moveto_end:
  assumes "numbers ns" and "odd (length ns) \<or> ns = []"
  shows "moveto c st ns = Inl UnexpectedEnd"
proof (cases ns)
  case Nil
  then show ?thesis by (simp add: moveto_def)
next
  case (Cons x r)
  show ?thesis
  proof (cases r)
    case Nil
    with Cons assms show ?thesis by (simp add: moveto_def)
  next
    case (Cons y zs)
    with \<open>ns = x # r\<close> assms have "numbers zs" "odd (length zs)" by auto
    from m_pairs_odd [OF this] Cons \<open>ns = x # r\<close> assms show ?thesis
      by (simp add: moveto_def Let_def)
  qed
qed

lemma lineto_end:
  assumes "numbers ns" and "odd (length ns)"
  shows "lineto c st ns = Inl UnexpectedEnd"
  using l_pairs_odd [OF assms] by (simp add: lineto_def)

lemma step_end:
  assumes "c = ''M'' \<or> c = ''m'' \<or> c = ''L'' \<or> c = ''l''" and "numbers ns"
    and "odd (length ns) \<or> (ns = [] \<and> (c = ''M'' \<or> c = ''m''))"
  shows "step st c ns = Inl UnexpectedEnd"
proof -
  from assms(1) have cmd: "is_cmd c"
    by (auto simp: is_cmd_def is_cmd_char_def)
  from assms(1) consider "c = ''M'' \<or> c = ''m''" | "c = ''L'' \<or> c = ''l''" by blast
  then show ?thesis
  proof cases
    case 1
    with assms have "moveto c (st\<lparr>cmd := Some c\<rparr>) ns = Inl UnexpectedEnd"
      by (intro moveto_end) auto
    with 1 cmd show ?thesis by (auto simp: step_def)
  next
    case 2
    with assms have "lineto c (st\<lparr>cmd := Some c\<rparr>) ns = Inl UnexpectedEnd"
      by (intro lineto_end) auto
    with 2 cmd show ?thesis by (auto simp: step_def)
  qed
qed


lemma CMD_findall_numbers:
  assumes "set ns \<subseteq> set (CMD_findall d)" and "\<forall>t \<in> set ns. \<not> is_cmd t"
  shows "numbers ns"
  using assms CMD_findall_tokens [of _ d]
  by (auto simp: numbers_def list_all_iff)

text \<open>
  C8. When the tokens of a path string end where a coordinate is still to be read, the
  interpreter fails with the end-of-data error: that is the case when the last command
  letter is a moveto or a lineto followed to the end by an odd count of numbers, or a
  moveto followed by nothing, the tokens before that letter having been interpreted
  without error. The loop over the elements then prints the warning for that element,
  adds no polygon for it and goes on with the elements behind it.
\<close>

theorem unexpected_end_of_data:
  assumes "CMD_findall d = pre @ c # ns"
    and "run init_state pre = Some (Inr st)"
    and "c = ''M'' \<or> c = ''m'' \<or> c = ''L'' \<or> c = ''l''"
    and "\<forall>t \<in> set ns. \<not> is_cmd t"
    and "odd (length ns) \<or> (ns = [] \<and> (c = ''M'' \<or> c = ''m''))"
  shows "path_to_points d = Some (Inl UnexpectedEnd)
    \<and> (\<forall>el els all_polys printed.
          ends_with ''path'' (tag el) \<and> get el ''d'' = Some d
          \<longrightarrow> elements_loop all_polys printed (el # els)
              = elements_loop all_polys (printed @ [SkippingPath UnexpectedEnd]) els)"
proof -
  from assms(3) have cmd: "is_cmd c"
    by (auto simp: is_cmd_def is_cmd_char_def)
  have "numbers ns"
    using assms(1,4) by (intro CMD_findall_numbers [of ns d]) auto
  from step_end [OF assms(3) this assms(5)] have "run st (c # ns) = Some (Inl UnexpectedEnd)"
    by (subst run.simps) simp
  with run_append [OF assms(2) cmd, of ns] assms(1)
  have p: "path_to_points d = Some (Inl UnexpectedEnd)"
    by (simp add: path_to_points_def)
  from assms(1) have "d \<noteq> []" by auto
  with p show ?thesis
    by (auto simp: element_step_def truthy_def)
qed

theorem unexpected_end_of_data_witness:
  "CMD_findall ''M0,0 L1,1 2'' = [''M'', ''0'', ''0''] @ ''L'' # [''1'', ''1'', ''2'']
   \<and> run init_state [''M'', ''0'', ''0'']
       = Some (Inr \<lparr>cur = (0, 0), start = Some (0, 0), polys = [[(0, 0)]], cmd = Some ''M''\<rparr>)
   \<and> path_to_points ''M0,0 L1,1 2'' = Some (Inl UnexpectedEnd)
   \<and> CMD_findall ''M 5'' = [] @ ''M'' # [''5'']
   \<and> path_to_points ''M 5'' = Some (Inl UnexpectedEnd)
   \<and> elements_loop [] [] [Element svg_path [(''d'', ''M0,0 L1,1 2'')] [],
                           Element svg_path [(''d'', ''M0,0 L1,1 2,2'')] []]
       = Some (Inr ([[(0, 0), (1, 1), (2, 2)]], [SkippingPath UnexpectedEnd]))"
proof -
  have 1: "CMD_findall ''M0,0 L1,1 2'' = [''M'', ''0'', ''0''] @ ''L'' # [''1'', ''1'', ''2'']"
    by (simp add: num_defs)
  have 2: "run init_state [''M'', ''0'', ''0'']
       = Some (Inr \<lparr>cur = (0, 0), start = Some (0, 0), polys = [[(0, 0)]], cmd = Some ''M''\<rparr>)"
    by (simp add: num_defs interp_defs)
  have 3: "''L'' = ''M'' \<or> ''L'' = ''m'' \<or> ''L'' = ''L'' \<or> ''L'' = ''l''"
    by simp
  have 4: "\<forall>t \<in> set [''1'', ''1'', ''2'']. \<not> is_cmd t"
    by (simp add: num_defs)
  have 5: "odd (length [''1'', ''1'', ''2''])
      \<or> ([''1'', ''1'', ''2''] = [] \<and> (''L'' = ''M'' \<or> ''L'' = ''m''))"
    by simp
  have 6: "CMD_findall ''M 5'' = [] @ ''M'' # [''5'']"
    by (simp add: num_defs)
  have 7: "run init_state [] = Some (Inr init_state)"
    by (simp add: run.simps)
  have 8: "''M'' = ''M'' \<or> ''M'' = ''m'' \<or> ''M'' = ''L'' \<or> ''M'' = ''l''"
    by simp
  have 9: "\<forall>t \<in> set [''5'']. \<not> is_cmd t"
    by (simp add: num_defs)
  have 10: "odd (length [''5'']) \<or> ([''5''] = [] \<and> (''M'' = ''M'' \<or> ''M'' = ''m''))"
    by simp
  have 11: "elements_loop [] [SkippingPath UnexpectedEnd]
        [Element svg_path [(''d'', ''M0,0 L1,1 2,2'')] []]
       = Some (Inr ([[(0, 0), (1, 1), (2, 2)]], [SkippingPath UnexpectedEnd]))"
    by (simp add: num_defs interp_defs elem_defs)
  have 12: "ends_with ''path'' (tag (Element svg_path [(''d'', ''M0,0 L1,1 2'')] []))
      \<and> get (Element svg_path [(''d'', ''M0,0 L1,1 2'')] []) ''d'' = Some ''M0,0 L1,1 2''"
    by (simp add: ends_with_def get_def svg_path_def)
  from unexpected_end_of_data [OF 1 2 3 4 5] unexpected_end_of_data [OF 6 7 8 9 10] 1 2 6 11 12
  show ?thesis
    by simp
qed

section \<open>A lone moveto\<close>

lemma m_pairs_Nil: "m_pairs c poly cu [] = Inr (poly, cu, [])"
  by (simp add: m_pairs.simps)

text \<open>
  C10. A path whose tokens are one moveto letter and its two coordinates returns one
  subpath of one point, which the closing pass leaves alone since its first and last
  point are the same; the removal of the duplicate last point then deletes that point,
  so the element adds the empty polygon to the output, whatever its transform.
\<close>

theorem single_moveto_empty_polygon:
  assumes "CMD_findall d = [c, a, b]" and "c = ''M'' \<or> c = ''m''"
    and "\<not> is_cmd a" and "\<not> is_cmd b"
  shows "path_to_points d = Some (Inr [[(num_value a, num_value b)]])
    \<and> (\<forall>el T. ends_with ''path'' (tag el) \<and> get el ''d'' = Some d
                \<and> element_transform (get el ''transform'') = Inr T
          \<longrightarrow> element_step el = Some (Inr ([[]], [])))"
proof -
  from assms(2) have cmd: "is_cmd c"
    by (auto simp: is_cmd_def is_cmd_char_def)
  have "numbers [a, b]"
    using assms(1,3,4) by (intro CMD_findall_numbers [of _ d]) auto
  then have fa: "float_str a = Inr (num_value a)" and fb: "float_str b = Inr (num_value b)"
    by simp_all
  have "moveto c (init_state\<lparr>cmd := Some c\<rparr>) [a, b]
      = Inr (init_state\<lparr>cmd := Some c, cur := (num_value a, num_value b),
               start := Some (num_value a, num_value b),
               polys := [[(num_value a, num_value b)]]\<rparr>, [])"
    using assms(2) by (auto simp: moveto_def fa fb m_pairs_Nil init_state_def Let_def)
  with assms(2) cmd have "step init_state c [a, b]
      = Inr (init_state\<lparr>cmd := Some c, cur := (num_value a, num_value b),
               start := Some (num_value a, num_value b),
               polys := [[(num_value a, num_value b)]]\<rparr>, [])"
    by (auto simp: step_def)
  then have "run init_state [c, a, b]
      = Some (Inr (init_state\<lparr>cmd := Some c, cur := (num_value a, num_value b),
               start := Some (num_value a, num_value b),
               polys := [[(num_value a, num_value b)]]\<rparr>))"
    by (simp add: run.simps)
  then have p: "path_to_points d = Some (Inr [[(num_value a, num_value b)]])"
    by (simp add: path_to_points_def assms(1) close_poly_def)
  from assms(1) have "d \<noteq> []" by auto
  with p show ?thesis
    by (auto simp: element_step_def truthy_def transformed_def apply_simple_transform_def
        drop_closing_def)
qed

theorem single_moveto_empty_polygon_witness:
  "CMD_findall ''M3,4'' = [''M'', ''3'', ''4'']
   \<and> path_to_points ''M3,4'' = Some (Inr [[(3, 4)]])
   \<and> element_step (Element svg_path [(''d'', ''M3,4''), (''transform'', ''scale(2)'')] [])
       = Some (Inr ([[]], []))
   \<and> main [''svg2walkable.py'', ''in.svg'', ''out.json'']
        (Element ''{http://www.w3.org/2000/svg}svg'' [] [Element svg_path [(''d'', ''M3,4'')] []])
       = Some (Written [[]] [Wrote ''out.json'' 1])"
proof -
  have 1: "CMD_findall ''M3,4'' = [''M'', ''3'', ''4'']"
    by (simp add: num_defs)
  have 2: "\<not> is_cmd ''3''" "\<not> is_cmd ''4''"
    by (simp_all add: num_defs)
  have 3: "num_value ''3'' = 3" "num_value ''4'' = 4"
    by (simp_all add: num_defs)
  have 4: "element_transform (get (Element svg_path [(''d'', ''M3,4''), (''transform'', ''scale(2)'')] []) ''transform'')
        = Inr \<lparr>sx = 2, sy = 2, tx = 0, ty = 0\<rparr>"
    by (simp add: num_defs elem_defs)
  have 5: "main [''svg2walkable.py'', ''in.svg'', ''out.json'']
        (Element ''{http://www.w3.org/2000/svg}svg'' [] [Element svg_path [(''d'', ''M3,4'')] []])
       = Some (Written [[]] [Wrote ''out.json'' 1])"
    by (simp add: num_defs interp_defs elem_defs main_defs)
  have 6: "''M'' = ''M'' \<or> ''M'' = ''m''"
    by simp
  have 7: "ends_with ''path''
        (tag (Element svg_path [(''d'', ''M3,4''), (''transform'', ''scale(2)'')] []))
      \<and> get (Element svg_path [(''d'', ''M3,4''), (''transform'', ''scale(2)'')] []) ''d''
        = Some ''M3,4''"
    by (simp add: ends_with_def get_def svg_path_def)
  from single_moveto_empty_polygon [OF 1 6 2] 1 3 4 5 7 show ?thesis
    by simp
qed

section \<open>The fallback to all elements\<close>

lemma elements_loop_printed:
  "elements_loop acc (m # printed) els
     = (case elements_loop acc printed els of
          Some (Inr (ps, ms)) \<Rightarrow> Some (Inr (ps, m # ms))
        | r \<Rightarrow> r)"
proof (induction els arbitrary: acc printed)
  case Nil
  show ?case by simp
next
  case (Cons el els)
  show ?case
  proof (cases "element_step el")
    case None
    then show ?thesis by simp
  next
    case (Some r)
    show ?thesis
    proof (cases r)
      case (Inl e)
      with Some show ?thesis by simp
    next
      case (Inr p)
      obtain out msgs where "p = (out, msgs)" by (cases p)
      with Some Inr Cons.IH [of "acc @ out" "printed @ msgs"] show ?thesis by simp
    qed
  qed
qed

text \<open>
  C9 (amended). When a selector whose key and value are both non-empty matches no
  element, the warning is printed and all path elements followed by all polygon elements
  of the document are processed: the run is the run without a selector, with the warning
  printed first. When no selector is given, or its key or value is empty, the same
  elements are processed and no warning is printed.
\<close>

theorem selector_fallback:
  "(k \<noteq> [] \<and> v \<noteq> [] \<and> select_elements doc k v = []
      \<longrightarrow> choose_elements doc (Some k) (Some v)
          = (findall doc svg_path @ findall doc svg_polygon, [NothingMatched k v])
        \<and> process doc outp (Some k) (Some v)
          = warned (NothingMatched k v) (process doc outp None None))
   \<and> (k = [] \<or> v = []
      \<longrightarrow> choose_elements doc (Some k) (Some v)
          = (findall doc svg_path @ findall doc svg_polygon, [])
        \<and> process doc outp (Some k) (Some v) = process doc outp None None)
   \<and> choose_elements doc None None = (findall doc svg_path @ findall doc svg_polygon, [])"
proof -
  have c0: "choose_elements doc None None = (findall doc svg_path @ findall doc svg_polygon, [])"
    by (simp add: choose_elements_def truthy_def)
  have c1: "choose_elements doc (Some k) (Some v)
      = (findall doc svg_path @ findall doc svg_polygon, [NothingMatched k v])"
    if "k \<noteq> []" "v \<noteq> []" "select_elements doc k v = []"
    using that by (simp add: choose_elements_def truthy_def)
  have c2: "choose_elements doc (Some k) (Some v)
      = (findall doc svg_path @ findall doc svg_polygon, [])"
    if "k = [] \<or> v = []"
    using that by (auto simp: choose_elements_def truthy_def)
  have p1: "process doc outp (Some k) (Some v)
      = warned (NothingMatched k v) (process doc outp None None)"
    if "k \<noteq> []" "v \<noteq> []" "select_elements doc k v = []"
    unfolding process_def c0 c1 [OF that] warned_def
    by (simp add: elements_loop_printed split: option.splits sum.splits)
  have p2: "process doc outp (Some k) (Some v) = process doc outp None None"
    if "k = [] \<or> v = []"
    unfolding process_def c0 c2 [OF that] by simp
  from c0 c1 c2 p1 p2 show ?thesis by blast
qed

text \<open>C9, at a document with no element of id \<^verbatim>\<open>foo\<close>.\<close>

theorem selector_fallback_witness:
  "select_elements
     (Element ''{http://www.w3.org/2000/svg}svg'' []
        [Element svg_polygon [(''points'', ''0,0 4,0 4,4''), (''id'', ''b'')] [],
         Element svg_path [(''d'', ''M0,0 L1,0 1,1''), (''id'', ''a'')] []]) ''id'' ''foo'' = []
   \<and> choose_elements
     (Element ''{http://www.w3.org/2000/svg}svg'' []
        [Element svg_polygon [(''points'', ''0,0 4,0 4,4''), (''id'', ''b'')] [],
         Element svg_path [(''d'', ''M0,0 L1,0 1,1''), (''id'', ''a'')] []])
     (Some ''id'') (Some ''foo'')
     = ([Element svg_path [(''d'', ''M0,0 L1,0 1,1''), (''id'', ''a'')] [],
         Element svg_polygon [(''points'', ''0,0 4,0 4,4''), (''id'', ''b'')] []],
        [NothingMatched ''id'' ''foo''])
   \<and> main [''svg2walkable.py'', ''in.svg'', ''out.json'', ''--select=id:foo'']
     (Element ''{http://www.w3.org/2000/svg}svg'' []
        [Element svg_polygon [(''points'', ''0,0 4,0 4,4''), (''id'', ''b'')] [],
         Element svg_path [(''d'', ''M0,0 L1,0 1,1''), (''id'', ''a'')] []])
     = Some (Written [[(0, 0), (1, 0), (1, 1)], [(0, 0), (4, 0), (4, 4)]]
               [NothingMatched ''id'' ''foo'', Wrote ''out.json'' 2])"
proof -
  let ?doc = "Element ''{http://www.w3.org/2000/svg}svg'' []
        [Element svg_polygon [(''points'', ''0,0 4,0 4,4''), (''id'', ''b'')] [],
         Element svg_path [(''d'', ''M0,0 L1,0 1,1''), (''id'', ''a'')] []]"
  have 1: "''id'' \<noteq> [] \<and> ''foo'' \<noteq> [] \<and> select_elements ?doc ''id'' ''foo'' = []"
    by (simp add: main_defs get_def svg_path_def svg_polygon_def)
  have 2: "findall ?doc svg_path @ findall ?doc svg_polygon
      = [Element svg_path [(''d'', ''M0,0 L1,0 1,1''), (''id'', ''a'')] [],
         Element svg_polygon [(''points'', ''0,0 4,0 4,4''), (''id'', ''b'')] []]"
    by (simp add: main_defs svg_path_def svg_polygon_def)
  have 3: "main [''svg2walkable.py'', ''in.svg'', ''out.json'', ''--select=id:foo''] ?doc
     = Some (Written [[(0, 0), (1, 0), (1, 1)], [(0, 0), (4, 0), (4, 4)]]
               [NothingMatched ''id'' ''foo'', Wrote ''out.json'' 2])"
    by (simp add: num_defs interp_defs elem_defs main_defs)
  from selector_fallback [of "''id''" "''foo''" ?doc "''out.json''"] 1 2 3 show ?thesis
    by simp
qed

text \<open>
  C9 as stated fails for a selector with an empty value: \<^verbatim>\<open>--select=id:\<close> gives the
  key \<^verbatim>\<open>id\<close> and the empty value, no element has an empty id, and nothing is printed
  before the summary, since \<^verbatim>\<open>if key and val\<close> skips the selection and its warning.
\<close>

theorem empty_selector_value_counterexample:
  "parse_args [''svg2walkable.py'', ''in.svg'', ''out.json'', ''--select=id:'']
     = Inr (''in.svg'', ''out.json'', Some ''id'', Some [])
   \<and> select_elements
     (Element ''{http://www.w3.org/2000/svg}svg'' []
        [Element svg_path [(''d'', ''M0,0 L1,0 1,1''), (''id'', ''a'')] []]) ''id'' [] = []
   \<and> choose_elements
     (Element ''{http://www.w3.org/2000/svg}svg'' []
        [Element svg_path [(''d'', ''M0,0 L1,0 1,1''), (''id'', ''a'')] []])
     (Some ''id'') (Some [])
     = ([Element svg_path [(''d'', ''M0,0 L1,0 1,1''), (''id'', ''a'')] []], [])
   \<and> main [''svg2walkable.py'', ''in.svg'', ''out.json'', ''--select=id:'']
     (Element ''{http://www.w3.org/2000/svg}svg'' []
        [Element svg_path [(''d'', ''M0,0 L1,0 1,1''), (''id'', ''a'')] []])
     = Some (Written [[(0, 0), (1, 0), (1, 1)]] [Wrote ''out.json'' 1])"
  by (simp add: num_defs interp_defs elem_defs main_defs)

section \<open>Transforms\<close>

lemma accumulate_commute:
  "accumulate (accumulate T k1 as1) k2 as2 = accumulate (accumulate T k2 as2) k1 as1"
  by (simp add: accumulate_def ac_simps)

text \<open>
  C6. A translate with one argument adds it to \<open>tx\<close>, with two arguments to \<open>tx\<close> and
  \<open>ty\<close>; a scale with one argument multiplies \<open>sx\<close> and \<open>sy\<close> by it, with two
  arguments \<open>sx\<close> by the first and \<open>sy\<close> by the second. The calls are taken from left
  to right, each on the accumulators the calls before it left, and two calls give the
  same accumulators in either order. The result maps a point (x, y) to
  (sx * x + tx, sy * y + ty): \<^verbatim>\<open>scale(2) translate(5,5)\<close> gives sx = sy = 2 and
  tx = ty = 5 and sends (1,1) to (7,7).
\<close>

theorem transform_accumulation:
  "accumulate T ''translate'' [a] = T\<lparr>tx := tx T + a\<rparr>
   \<and> accumulate T ''translate'' [a, b] = T\<lparr>tx := tx T + a, ty := ty T + b\<rparr>
   \<and> accumulate T ''scale'' [a] = T\<lparr>sx := sx T * a, sy := sy T * a\<rparr>
   \<and> accumulate T ''scale'' [a, b] = T\<lparr>sx := sx T * a, sy := sy T * b\<rparr>
   \<and> transform_loop T ((k1, a1) # items)
       = (case item_args a1 of
            Inl e \<Rightarrow> Inl e
          | Inr args \<Rightarrow> transform_loop (accumulate T k1 args) items)
   \<and> accumulate (accumulate T k1 as1) k2 as2 = accumulate (accumulate T k2 as2) k1 as1
   \<and> apply_simple_transform pts (sx T) (sy T) (tx T) (ty T)
       = map (\<lambda>(x, y). (sx T * x + tx T, sy T * y + ty T)) pts
   \<and> transform_items ''scale(2) translate(5,5)'' = [(''scale'', ''2''), (''translate'', ''5,5'')]
   \<and> element_transform (Some ''scale(2) translate(5,5)'')
       = Inr \<lparr>sx = 2, sy = 2, tx = 5, ty = 5\<rparr>
   \<and> apply_simple_transform [(1, 1)] 2 2 5 5 = [(7, 7)]
   \<and> element_step (Element svg_path
          [(''d'', ''M1,1 L2,1''), (''transform'', ''scale(2) translate(5,5)'')] [])
       = Some (Inr ([[(7, 7), (9, 7)]], []))"
proof -
  have "transform_items ''scale(2) translate(5,5)'' = [(''scale'', ''2''), (''translate'', ''5,5'')]"
    by (simp add: elem_defs)
  moreover have "element_transform (Some ''scale(2) translate(5,5)'')
       = Inr \<lparr>sx = 2, sy = 2, tx = 5, ty = 5\<rparr>"
    by (simp add: num_defs elem_defs)
  moreover have "element_step (Element svg_path
          [(''d'', ''M1,1 L2,1''), (''transform'', ''scale(2) translate(5,5)'')] [])
       = Some (Inr ([[(7, 7), (9, 7)]], []))"
    by (simp add: num_defs interp_defs elem_defs)
  moreover have "apply_simple_transform [(1, 1)] 2 2 5 5 = [(7, 7)]"
    by (simp add: apply_simple_transform_def)
  ultimately show ?thesis
    by (simp add: accumulate_def apply_simple_transform_def ac_simps)
qed

section \<open>The points attribute\<close>

lemma sep_not_number_char:
  "is_sep c \<Longrightarrow> \<not> is_digit c \<and> c \<noteq> CHR ''.'' \<and> c \<noteq> CHR ''e'' \<and> c \<noteq> CHR ''E''
     \<and> c \<noteq> CHR ''+'' \<and> c \<noteq> CHR ''-''"
  by (auto simp: is_sep_def is_space_def is_digit_def)

lemma space_is_sep: "is_space c \<Longrightarrow> is_sep c"
  by (simp add: is_sep_def)

lemma separators_number_ends: "separators s \<Longrightarrow> number_ends (s @ x)"
  by (cases s) (auto simp: separators_def number_ends_def dest: sep_not_number_char)

lemma literal_stable: "literal a \<Longrightarrow> number_ends x \<Longrightarrow> match_num (a @ x) = Some (a, x)"
  unfolding literal_def by (rule match_num_stable)

lemma literal_head: "literal a \<Longrightarrow> a \<noteq> [] \<and> \<not> is_sep (hd a)"
  unfolding literal_def
  by (drule match_num_head) (auto dest: sep_not_number_char)

lemma literal_float: "literal a \<Longrightarrow> float_str a = Inr (num_value a)"
  by (simp add: literal_def float_str_def)

lemma match_num_sep: "is_sep c \<Longrightarrow> match_num (c # r) = None"
proof (cases "match_num (c # r)")
  case None
  then show ?thesis by simp
next
  case (Some p)
  assume c: "is_sep c"
  obtain t r' where p: "p = (t, r')" by (cases p)
  from Some p match_num_split [of "c # r" t r'] match_num_head [of "c # r" t r']
  have "hd t = c" "is_digit (hd t) \<or> hd t = CHR ''.'' \<or> hd t = CHR ''+'' \<or> hd t = CHR ''-''"
    by (cases t; auto)+
  with sep_not_number_char [OF c] show ?thesis by auto
qed

lemma points_findall_skip:
  "list_all is_sep g \<Longrightarrow> points_findall (g @ x) = points_findall x"
  by (induction g) (auto simp: match_pair_def match_num_sep)

lemma match_pair_literals:
  assumes "literal a" "separators s" "literal b" "number_ends x"
  shows "match_pair (a @ s @ b @ x) = Some ((a, b), x)"
proof -
  have 1: "match_num (a @ s @ b @ x) = Some (a, s @ b @ x)"
    using assms(1,2) by (intro literal_stable separators_number_ends)
  from assms(2) obtain c s' where s: "s = c # s'" "is_sep c" "list_all is_sep s"
    by (cases s) (auto simp: separators_def)
  from literal_head [OF assms(3)] obtain d b' where b: "b = d # b'" "\<not> is_sep d"
    by (cases b) auto
  have 2: "takeWhile is_sep (s @ b @ x) \<noteq> []"
    using s by simp
  have 3: "dropWhile is_sep (s @ b @ x) = b @ x"
    using s(3) b by (simp add: dropWhile_append2 list_all_iff)
  have 4: "match_num (b @ x) = Some (b, x)"
    using assms(3,4) by (rule literal_stable)
  show ?thesis
    unfolding match_pair_def 1 using 2 by (simp add: 3 4)
qed

lemma points_findall_nonempty:
  "s \<noteq> [] \<Longrightarrow> points_findall s
     = (case match_pair s of Some (p, rest) \<Rightarrow> p # points_findall rest
        | None \<Rightarrow> points_findall (tl s))"
  by (cases s) (auto split: option.splits)

lemma points_findall_join:
  "list_all pair_ok ps \<Longrightarrow> points_findall (join_pairs ps) = map (\<lambda>(a, s, b, g). (a, b)) ps"
proof (induction ps rule: join_pairs.induct)
  case 1
  show ?case by simp
next
  case (2 a s b g)
  then have ok: "literal a" "separators s" "literal b"
    by (simp_all add: pair_ok_def)
  from literal_head [OF ok(1)] have ne: "a @ s @ b \<noteq> []" by simp
  from match_pair_literals [OF ok, of "[]"] have "match_pair (a @ s @ b) = Some ((a, b), [])"
    by (simp add: number_ends_def)
  with ne show ?case
    by (simp add: points_findall_nonempty del: points_findall.simps(2))
next
  case (3 a s b g p ps)
  from "3.prems" have this_ok: "pair_ok (a, s, b, g)" and rest: "list_all pair_ok (p # ps)"
    by simp_all
  from this_ok have ok: "literal a" "separators s" "literal b" and g: "separators g"
    by (simp_all add: pair_ok_def)
  from literal_head [OF ok(1)] have ne: "a @ s @ b @ g @ join_pairs (p # ps) \<noteq> []" by simp
  from match_pair_literals [OF ok separators_number_ends [OF g], of "join_pairs (p # ps)"]
  have "match_pair (a @ s @ b @ g @ join_pairs (p # ps)) = Some ((a, b), g @ join_pairs (p # ps))" .
  moreover from g have "points_findall (g @ join_pairs (p # ps)) = points_findall (join_pairs (p # ps))"
    by (intro points_findall_skip) (simp add: separators_def)
  ultimately show ?case
    using ne "3.IH" [OF rest]
    by (simp add: points_findall_nonempty del: points_findall.simps(2))
qed

lemma digits1_chars: "digits1 s = Some (t, r) \<Longrightarrow> list_all number_char t"
  by (auto simp: digits1_iff list_all_iff number_char_def)

lemma takeWhile_digit_chars: "list_all number_char (takeWhile is_digit s)"
  by (auto simp: list_all_iff number_char_def dest: set_takeWhileD)

lemma mantissa_chars: "mantissa s = Some (m, r) \<Longrightarrow> list_all number_char m"
  using takeWhile_digit_chars
  by (auto simp: mantissa_def number_char_def split: option.splits list.splits if_splits
      dest!: digits1_chars)

lemma exponent_chars: "exponent s = (e, r) \<Longrightarrow> list_all number_char e"
  by (auto simp: exponent_def number_char_def split: option.splits list.splits if_splits
      dest!: digits1_chars)

lemma match_num_chars: "match_num s = Some (t, r) \<Longrightarrow> list_all number_char t"
  by (auto simp: match_num_def number_char_def split: option.splits list.splits if_splits prod.splits
      dest!: mantissa_chars exponent_chars)

lemma number_char_not_space: "number_char c \<Longrightarrow> \<not> is_space c"
  by (auto simp: number_char_def is_space_def is_digit_def)

lemma strip_id: "s = [] \<or> (\<not> is_space (hd s) \<and> \<not> is_space (last s)) \<Longrightarrow> strip s = s"
proof (cases s)
  case Nil
  then show ?thesis by (simp add: strip_def)
next
  case (Cons c r)
  assume "s = [] \<or> (\<not> is_space (hd s) \<and> \<not> is_space (last s))"
  with Cons have h: "\<not> is_space c" and l: "\<not> is_space (last s)" by auto
  from h Cons have 1: "dropWhile is_space s = s" by simp
  from Cons have "rev s \<noteq> []" by simp
  then obtain d q where rs: "rev s = d # q" by (cases "rev s") auto
  then have "d = last s" using Cons by (metis hd_rev list.sel(1))
  with l have "dropWhile is_space (d # q) = d # q" by simp
  then have "dropWhile is_space (rev s) = rev s" unfolding rs .
  with 1 show ?thesis by (simp add: strip_def)
qed

lemma literal_ends: "literal a \<Longrightarrow> a \<noteq> [] \<and> \<not> is_space (hd a) \<and> \<not> is_space (last a)"
proof -
  assume a: "literal a"
  then have "list_all number_char a" unfolding literal_def by (rule match_num_chars)
  moreover from literal_head [OF a] have "a \<noteq> []" by simp
  ultimately show ?thesis
    by (auto simp: list_all_iff dest!: number_char_not_space)
qed

lemma join_pairs_ends:
  "list_all pair_ok ps \<Longrightarrow> ps \<noteq> []
     \<Longrightarrow> join_pairs ps \<noteq> [] \<and> \<not> is_space (hd (join_pairs ps)) \<and> \<not> is_space (last (join_pairs ps))"
proof (induction ps rule: join_pairs.induct)
  case 1
  then show ?case by simp
next
  case (2 a s b g)
  then have "literal a" "literal b" by (simp_all add: pair_ok_def)
  from literal_ends [OF this(1)] literal_ends [OF this(2)] show ?case by simp
next
  case (3 a s b g p ps)
  from "3.prems" have this_ok: "pair_ok (a, s, b, g)" and rest: "list_all pair_ok (p # ps)"
    by simp_all
  from this_ok have "literal a" by (simp add: pair_ok_def)
  from literal_ends [OF this] "3.IH" [OF rest] show ?case by simp
qed

lemma strip_join_pairs: "list_all pair_ok ps \<Longrightarrow> strip (join_pairs ps) = join_pairs ps"
proof (cases ps)
  case Nil
  then show ?thesis by (simp add: strip_def)
next
  case (Cons p q)
  assume "list_all pair_ok ps"
  from join_pairs_ends [OF this] Cons show ?thesis
    by (intro strip_id) simp
qed

lemma match_pair_tokens:
  "match_pair s = Some ((a, b), r)
     \<Longrightarrow> float_str a = Inr (num_value a) \<and> float_str b = Inr (num_value b)"
  by (auto simp: match_pair_def split: option.splits if_splits dest: float_str_token)

lemma pairs_to_points_findall:
  "pairs_to_points (points_findall s) = Inr (map point_of (points_findall s))"
proof (induction s rule: points_findall.induct)
  case 1
  show ?case by simp
next
  case (2 c s)
  show ?case
  proof (cases "match_pair (c # s)")
    case None
    with 2 show ?thesis by simp
  next
    case (Some q)
    obtain a b rest where q: "q = ((a, b), rest)" by (cases q) auto
    from match_pair_tokens [OF Some [unfolded q]] "2.IH"(2) [OF Some [unfolded q] refl] Some q
    show ?thesis by (simp add: point_of_def)
  qed
qed

lemma polygon_points_total:
  "polygon_points_attr_to_list s = Inr (close_poly (map point_of (points_findall (strip s))))"
  by (simp add: polygon_points_attr_to_list_def pairs_to_points_findall close_poly_def)

text \<open>
  C7. The parser of the \<^verbatim>\<open>points\<close> attribute never fails: it returns the points of the
  pairs the pattern finds, in order, closed by the first point when that differs from
  the last, so the result is empty or begins and ends with the same point. On the text
  of a list of pairs of literals, separated by commas and whitespace in any combination,
  the pairs found are exactly those pairs. For \<^verbatim>\<open>0,0 10,0 10,10 0,10\<close> the result is
  (0,0), (10,0), (10,10), (0,10), (0,0) and the polygon written is (0,0), (10,0),
  (10,10), (0,10).
\<close>

theorem polygon_points_closed_ring:
  "polygon_points_attr_to_list s = Inr (close_poly (map point_of (points_findall (strip s))))
   \<and> (\<exists>pts. polygon_points_attr_to_list s = Inr pts \<and> (pts = [] \<or> hd pts = last pts))
   \<and> (list_all pair_ok ps
        \<longrightarrow> polygon_points_attr_to_list (join_pairs ps)
            = Inr (close_poly (map (\<lambda>(a, s, b, g). (num_value a, num_value b)) ps)))
   \<and> polygon_points_attr_to_list ''0,0 10,0 10,10 0,10''
       = Inr [(0, 0), (10, 0), (10, 10), (0, 10), (0, 0)]
   \<and> element_step (Element svg_polygon [(''points'', ''0,0 10,0 10,10 0,10'')] [])
       = Some (Inr ([[(0, 0), (10, 0), (10, 10), (0, 10)]], []))"
proof -
  have total: "polygon_points_attr_to_list s
      = Inr (close_poly (map point_of (points_findall (strip s))))" for s
    by (rule polygon_points_total)
  have closed: "close_poly pts = [] \<or> hd (close_poly pts) = last (close_poly pts)" for pts :: "point list"
    by (simp add: close_poly_def)
  have joined: "polygon_points_attr_to_list (join_pairs ps)
      = Inr (close_poly (map (\<lambda>(a, s, b, g). (num_value a, num_value b)) ps))"
    if ok: "list_all pair_ok ps"
  proof -
    have m: "map point_of (map (\<lambda>(a, s, b, g). (a, b)) ps)
        = map (\<lambda>(a, s, b, g). (num_value a, num_value b)) ps"
      by (simp add: point_of_def split_def)
    show ?thesis
      unfolding total strip_join_pairs [OF ok] points_findall_join [OF ok] m ..
  qed
  have ex1: "polygon_points_attr_to_list ''0,0 10,0 10,10 0,10''
       = Inr [(0, 0), (10, 0), (10, 10), (0, 10), (0, 0)]"
    by (simp add: num_defs elem_defs)
  have ex2: "element_step (Element svg_polygon [(''points'', ''0,0 10,0 10,10 0,10'')] [])
       = Some (Inr ([[(0, 0), (10, 0), (10, 10), (0, 10)]], []))"
    by (simp add: num_defs elem_defs)
  from total [of s] closed joined ex1 ex2 show ?thesis
    by auto
qed

text \<open>C7, at a text that mixes commas, blanks, a tab and a line feed.\<close>

theorem polygon_points_closed_ring_witness:
  "list_all pair_ok [(''0'', '','', ''0'', '' ''), (''10'', '', '', ''0'', [CHR 0x09, CHR '','']),
                     (''1e1'', [CHR 0x0A], ''10.'', '' ''), (''-0'', '','', ''+.1E+2'', '' '')]
   \<and> join_pairs [(''0'', '','', ''0'', '' ''), (''10'', '', '', ''0'', [CHR 0x09, CHR '','']),
                     (''1e1'', [CHR 0x0A], ''10.'', '' ''), (''-0'', '','', ''+.1E+2'', '' '')]
       = ''0,0 10, 0'' @ [CHR 0x09] @ '',1e1'' @ [CHR 0x0A] @ ''10. -0,+.1E+2''
   \<and> polygon_points_attr_to_list (''0,0 10, 0'' @ [CHR 0x09] @ '',1e1'' @ [CHR 0x0A] @ ''10. -0,+.1E+2'')
       = Inr [(0, 0), (10, 0), (10, 10), (0, 10), (0, 0)]"
proof -
  let ?ps = "[(''0'', '','', ''0'', '' ''), (''10'', '', '', ''0'', [CHR 0x09, CHR '','']),
              (''1e1'', [CHR 0x0A], ''10.'', '' ''), (''-0'', '','', ''+.1E+2'', '' '')]"
  have 1: "list_all pair_ok ?ps"
    by (simp add: pair_ok_def literal_def separators_def is_sep_def is_space_def num_defs)
  have 2: "join_pairs ?ps = ''0,0 10, 0'' @ [CHR 0x09] @ '',1e1'' @ [CHR 0x0A] @ ''10. -0,+.1E+2''"
    by simp
  have 3: "close_poly (map (\<lambda>(a, s, b, g). (num_value a, num_value b)) ?ps)
      = [(0, 0), (10, 0), (10, 10), (0, 10), (0, 0)]"
    by (simp add: close_poly_def num_defs)
  from polygon_points_closed_ring [of "[]" ?ps] 1 2 3 show ?thesis
    by simp
qed

section \<open>The loop need not end\<close>

text \<open>
  A closepath turn in front of a number leaves the tokens and \<^verbatim>\<open>cmd\<close> as they are,
  so the next turn is a closepath turn in front of the same number.
\<close>

lemma closepath_cmd [simp]: "cmd (closepath st) = cmd st"
  by (simp add: closepath_def Let_def)

lemma step_stuck:
  "stuck st (t # rest) \<Longrightarrow> step st t rest = Inr (closepath (st\<lparr>cmd := cmd st\<rparr>), t # rest)"
  by (auto simp: stuck_def step_def)

lemma run_not_stuck:
  assumes "run st ts = Some y"
  shows "\<not> stuck st ts"
  using assms
proof (induction st ts y rule: run.raw_induct [rotated, consumes 1, case_names turn])
  case (turn run' st ts y)
  show ?case
  proof
    assume s: "stuck st ts"
    then obtain t rest where ts: "ts = t # rest"
      by (cases ts) (auto simp: stuck_def)
    from turn.hyps step_stuck [OF s [unfolded ts]] ts
    have "run' (closepath (st\<lparr>cmd := cmd st\<rparr>)) (t # rest) = Some y"
      by simp
    from turn.IH [OF this] s ts show False
      by (simp add: stuck_def)
  qed
qed

lemma run_closepath_number:
  "\<not> is_cmd t \<Longrightarrow> cmd st = Some ''Z'' \<or> cmd st = Some ''z'' \<Longrightarrow> run st (t # rest) = None"
  using run_not_stuck [of st "t # rest"]
  by (cases "run st (t # rest)") (auto simp: stuck_def)

lemma closepath_before_number_never_returns: "path_to_points ''M0,0 L1,0 Z 5'' = None"
proof -
  have "run init_state (CMD_findall ''M0,0 L1,0 Z 5'')
      = run \<lparr>cur = (0, 0), start = None, polys = [[(0, 0), (1, 0), (0, 0)]], cmd = Some ''Z''\<rparr> [''5'']"
    by (simp add: num_defs run.simps [of _ "_ # _ # _"] step_def moveto_def lineto_def
        seeded_def init_state_def m_pairs.simps l_pairs.simps closepath_def Let_def)
  also have "\<dots> = None"
    by (rule run_closepath_number) (simp_all add: num_defs)
  finally show ?thesis
    by (simp add: path_to_points_def)
qed

end
